theory Spec2Isabelle
  imports
    Main
    "HOL-Library.AList"
    "HOL-Library.Char_ord"
    "HOL-Library.List_Lexorder"
    "HOL-Library.Product_Lexorder"
    "HOL-Library.Multiset"
begin

section \<open>The task manager of src/processors/task.py\<close>

text \<open>
  The development embeds the class \<open>TaskManager\<close> and the dataclass \<open>Task\<close>.
  Python dictionaries are association lists with distinct keys (lookup \<open>map_of\<close>, store
  \<open>AList.update\<close>, removal \<open>AList.delete\<close>), Python \<open>int\<close> is \<open>int\<close>, \<open>str\<close> is
  \<open>string\<close>. Two values the code draws from its environment are arguments of the
  operations: the identifier \<open>str(uuid.uuid4())\<close> of a new task and the reading
  \<open>datetime.now()\<close> of the clock.
\<close>

subsection \<open>Data\<close>

text \<open>
  \<open>video_info\<close> is \<open>Dict[str, Any]\<close>; the manager reads one key of it, \<open>"priority"\<close>, whose
  value the dataclass declares as \<open>int\<close>. The dictionary is kept with integer values.
\<close>

record task =
  task_id :: string
  video_info :: "(string \<times> int) list"
  status :: string
  priority :: int
  retry_count :: int
  progress :: int
  error :: "string option"
  created_at :: nat
  updated_at :: nat

text \<open>
  The exceptions the class raises: \<open>Exception\<close> with the message "task does not exist",
  \<open>Exception\<close> with the message "only failed tasks can be retried", and the \<open>KeyError\<close> of a
  dictionary subscript on a missing key.
\<close>

datatype exn = TaskNotExist | OnlyFailedRetry | KeyError string

record manager =
  max_concurrent_downloads :: int
  max_concurrent_processes :: int
  batch_size :: int
  tasks :: "(string \<times> task) list"
  task_queue :: "(int \<times> string) list"
  lock :: bool
  status_counts :: "(string \<times> int) list"

text \<open>
  A call ends in one of three ways: it returns a value, it raises an exception, or it
  blocks for ever on \<open>self.lock\<close>. Each outcome carries the state of the manager at
  that moment, so that what a failing or blocked call has already written is visible.
\<close>

datatype 'a outcome = Returns 'a manager | Raises exn manager | Blocked manager

fun state_of :: "'a outcome \<Rightarrow> manager" where
  "state_of (Returns v s) = s"
| "state_of (Raises e s) = s"
| "state_of (Blocked s) = s"

fun returned :: "'a outcome \<Rightarrow> 'a option" where
  "returned (Returns v s) = Some v"
| "returned (Raises e s) = None"
| "returned (Blocked s) = None"

fun raised :: "'a outcome \<Rightarrow> exn option" where
  "raised (Returns v s) = None"
| "raised (Raises e s) = Some e"
| "raised (Blocked s) = None"

subsection \<open>Dictionaries, the lock and the queue\<close>

definition dict_get :: "('k \<times> 'v) list \<Rightarrow> 'k \<Rightarrow> 'v \<Rightarrow> 'v" where
  "dict_get d k dflt = (case map_of d k of None \<Rightarrow> dflt | Some v \<Rightarrow> v)"

text \<open>
  \<open>self.status_counts[k] += d\<close> reads the entry first: a missing key raises \<open>KeyError\<close>
  and nothing is stored.
\<close>

definition counts_add :: "string \<Rightarrow> int \<Rightarrow> (string \<times> int) list \<Rightarrow> exn + (string \<times> int) list" where
  "counts_add k d c =
     (case map_of c k of
        None \<Rightarrow> Inl (KeyError k)
      | Some v \<Rightarrow> Inr (AList.update k (v + d) c))"

text \<open>
  \<open>self.lock\<close> is a \<open>threading.Lock\<close>, which is not reentrant: \<open>with self.lock:\<close> acquires
  it when it is free and releases it when the block is left, by return or by exception;
  when the lock is already held the acquisition waits until some thread releases it.
  Every release in the class is the end of a \<open>with\<close> block, so a method that enters
  \<open>with self.lock:\<close> while the lock is held by its own caller waits for ever.
\<close>

definition with_lock :: "(manager \<Rightarrow> 'a outcome) \<Rightarrow> manager \<Rightarrow> 'a outcome" where
  "with_lock body s =
     (if lock s then Blocked s
      else (case body (s\<lparr>lock := True\<rparr>) of
              Returns v s' \<Rightarrow> Returns v (s'\<lparr>lock := False\<rparr>)
            | Raises e s' \<Rightarrow> Raises e (s'\<lparr>lock := False\<rparr>)
            | Blocked s' \<Rightarrow> Blocked s'))"

text \<open>
  \<open>queue.PriorityQueue\<close> belongs to the Python library. It holds a bag of entries and
  \<open>get\<close> removes a lowest one; the entries are the tuples \<open>(-priority, task_id)\<close>, which
  Python compares component by component: the integers first, then the strings by code
  point. The bag is a list in arrival order, \<open>put\<close> appends, \<open>get\<close> takes out the
  minimum of the lexicographic order on pairs.
\<close>

definition q_put :: "(int \<times> string) \<Rightarrow> (int \<times> string) list \<Rightarrow> (int \<times> string) list" where
  "q_put e q = q @ [e]"

definition qsize :: "(int \<times> string) list \<Rightarrow> nat" where
  "qsize q = length q"

definition q_empty :: "(int \<times> string) list \<Rightarrow> bool" where
  "q_empty q = (qsize q = 0)"

definition q_get :: "(int \<times> string) list \<Rightarrow> ((int \<times> string) \<times> (int \<times> string) list) option" where
  "q_get q =
     (case q of
        [] \<Rightarrow> None
      | x # xs \<Rightarrow> (let m = fold min xs x in Some (m, remove1 m q)))"

subsection \<open>The operations\<close>

definition init :: "(string \<times> int) list \<Rightarrow> manager" where
  "init config =
     \<lparr>max_concurrent_downloads = dict_get config ''max_concurrent_downloads'' 3,
      max_concurrent_processes = dict_get config ''max_concurrent_processes'' 2,
      batch_size = dict_get config ''batch_size'' 10,
      tasks = [],
      task_queue = [],
      lock = False,
      status_counts = [(''pending'', 0), (''processing'', 0), (''completed'', 0), (''failed'', 0)]\<rparr>"

text \<open>\<open>add_task\<close>; \<open>tid\<close> is the identifier uuid4 produced, \<open>now\<close> the clock.\<close>

definition add_task :: "string \<Rightarrow> nat \<Rightarrow> (string \<times> int) list \<Rightarrow> manager \<Rightarrow> string outcome" where
  "add_task tid now info =
     with_lock (\<lambda>s.
       let prio = dict_get info ''priority'' 1;
           t = \<lparr>task_id = tid, video_info = info, status = ''pending'', priority = prio,
                retry_count = 0, progress = 0, error = None,
                created_at = now, updated_at = now\<rparr>;
           s1 = s\<lparr>tasks := AList.update tid t (tasks s)\<rparr>
       in case counts_add ''pending'' 1 (status_counts s1) of
            Inl e \<Rightarrow> Raises e s1
          | Inr c \<Rightarrow>
              Returns tid (s1\<lparr>status_counts := c,
                              task_queue := q_put (- prio, tid) (task_queue s1)\<rparr>))"

definition get_task_status :: "string \<Rightarrow> manager \<Rightarrow> string option" where
  "get_task_status tid s = map_option status (map_of (tasks s) tid)"

text \<open>
  \<open>update_task_status\<close>: the old status's counter is decremented, then the new status's
  counter is incremented, then the record is written. Either subscript can raise
  \<open>KeyError\<close>; the second one does so after the first has been stored.
\<close>

definition update_task_status :: "string \<Rightarrow> string \<Rightarrow> nat \<Rightarrow> manager \<Rightarrow> bool outcome" where
  "update_task_status tid new_status now =
     with_lock (\<lambda>s.
       case map_of (tasks s) tid of
         None \<Rightarrow> Raises TaskNotExist s
       | Some t \<Rightarrow>
           (case counts_add (status t) (- 1) (status_counts s) of
              Inl e \<Rightarrow> Raises e s
            | Inr c1 \<Rightarrow>
                (let s1 = s\<lparr>status_counts := c1\<rparr>
                 in case counts_add new_status 1 c1 of
                      Inl e \<Rightarrow> Raises e s1
                    | Inr c2 \<Rightarrow>
                        Returns True
                          (s1\<lparr>status_counts := c2,
                              tasks := AList.update tid
                                (t\<lparr>status := new_status, updated_at := now\<rparr>) (tasks s1)\<rparr>))))"

text \<open>
  The loop of \<open>get_next_batch\<close>. The first argument after the clock is the number of
  iterations \<open>range\<close> still has to make. The exception handler of the loop body catches
  \<open>Exception\<close> and goes on with what has been written so far; a call that blocks never
  comes back. The second component of the result is not a value of the program: it lists
  the entries the loop has taken from the queue, in the order of the \<open>get\<close> calls, so
  that the work of a call can be counted.
\<close>

fun log_pop :: "(int \<times> string) \<Rightarrow> 'a \<times> (int \<times> string) list \<Rightarrow> 'a \<times> (int \<times> string) list" where
  "log_pop e (r, popped) = (r, e # popped)"

fun next_batch_loop ::
  "nat \<Rightarrow> nat \<Rightarrow> string list \<Rightarrow> string set \<Rightarrow> manager \<Rightarrow>
     string list outcome \<times> (int \<times> string) list" where
  "next_batch_loop now 0 batch seen s = (Returns batch s, [])"
| "next_batch_loop now (Suc n) batch seen s =
     (if batch_size s \<le> int (length batch) then (Returns batch s, [])
      else if q_empty (task_queue s) then (Returns batch s, [])
      else (case q_get (task_queue s) of
              None \<Rightarrow> next_batch_loop now n batch seen s
            | Some ((neg_priority, tid), q') \<Rightarrow>
                log_pop (neg_priority, tid)
                  (let s1 = s\<lparr>task_queue := q'\<rparr>
                   in if tid \<in> seen then next_batch_loop now n batch seen s1
                      else (case map_of (tasks s1) tid of
                              None \<Rightarrow> next_batch_loop now n batch (insert tid seen) s1
                            | Some t \<Rightarrow>
                                if status t = ''pending'' then
                                  (case update_task_status tid ''processing'' now s1 of
                                     Returns ok s2 \<Rightarrow>
                                       next_batch_loop now n (batch @ [tid]) (insert tid seen) s2
                                   | Raises e s2 \<Rightarrow>
                                       next_batch_loop now n (batch @ [tid]) (insert tid seen) s2
                                   | Blocked s2 \<Rightarrow> (Blocked s2, []))
                                else
                                  next_batch_loop now n batch (insert tid seen)
                                    (s1\<lparr>task_queue :=
                                          q_put (neg_priority, tid) (task_queue s1)\<rparr>)))))"

definition scan_bound :: "manager \<Rightarrow> nat" where
  "scan_bound s = nat (min (int (qsize (task_queue s))) (batch_size s * 2))"

definition get_next_batch :: "nat \<Rightarrow> manager \<Rightarrow> string list outcome" where
  "get_next_batch now =
     with_lock (\<lambda>s. fst (next_batch_loop now (scan_bound s) [] {} s))"

text \<open>The entries one call of \<open>get_next_batch\<close> takes from the queue.\<close>

definition get_next_batch_pops :: "nat \<Rightarrow> manager \<Rightarrow> (int \<times> string) list" where
  "get_next_batch_pops now s =
     (if lock s then []
      else snd (next_batch_loop now (scan_bound s) [] {} (s\<lparr>lock := True\<rparr>)))"

definition retry_failed_task :: "string \<Rightarrow> nat \<Rightarrow> manager \<Rightarrow> bool outcome" where
  "retry_failed_task tid now =
     with_lock (\<lambda>s.
       case map_of (tasks s) tid of
         None \<Rightarrow> Raises TaskNotExist s
       | Some t \<Rightarrow>
           if status t \<noteq> ''failed'' then Raises OnlyFailedRetry s
           else
             (let t' = t\<lparr>status := ''pending'', retry_count := retry_count t + 1,
                         error := None, updated_at := now\<rparr>;
                  s1 = s\<lparr>tasks := AList.update tid t' (tasks s)\<rparr>
              in case counts_add ''failed'' (- 1) (status_counts s1) of
                   Inl e \<Rightarrow> Raises e s1
                 | Inr c1 \<Rightarrow>
                     (let s2 = s1\<lparr>status_counts := c1\<rparr>
                      in case counts_add ''pending'' 1 c1 of
                           Inl e \<Rightarrow> Raises e s2
                         | Inr c2 \<Rightarrow>
                             Returns True
                               (s2\<lparr>status_counts := c2,
                                   task_queue :=
                                     q_put (- priority t', tid) (task_queue s2)\<rparr>))))"

definition update_task_progress :: "string \<Rightarrow> int \<Rightarrow> nat \<Rightarrow> manager \<Rightarrow> bool outcome" where
  "update_task_progress tid value now =
     with_lock (\<lambda>s.
       case map_of (tasks s) tid of
         None \<Rightarrow> Raises TaskNotExist s
       | Some t \<Rightarrow>
           Returns True
             (s\<lparr>tasks := AList.update tid
                   (t\<lparr>progress := max 0 (min 100 value), updated_at := now\<rparr>) (tasks s)\<rparr>))"

definition get_task_progress :: "string \<Rightarrow> manager \<Rightarrow> int" where
  "get_task_progress tid s = (case map_of (tasks s) tid of None \<Rightarrow> 0 | Some t \<Rightarrow> progress t)"

text \<open>
  \<open>update_task_error\<close>: the record is written first, then the counter of
  \<open>"processing"\<close> is decremented and the counter of \<open>"failed"\<close> incremented, whatever the
  status of the task was.
\<close>

definition update_task_error :: "string \<Rightarrow> string \<Rightarrow> nat \<Rightarrow> manager \<Rightarrow> bool outcome" where
  "update_task_error tid msg now =
     with_lock (\<lambda>s.
       case map_of (tasks s) tid of
         None \<Rightarrow> Raises TaskNotExist s
       | Some t \<Rightarrow>
           (let s1 = s\<lparr>tasks := AList.update tid
                         (t\<lparr>error := Some msg, status := ''failed'', updated_at := now\<rparr>)
                         (tasks s)\<rparr>
            in case counts_add ''processing'' (- 1) (status_counts s1) of
                 Inl e \<Rightarrow> Raises e s1
               | Inr c1 \<Rightarrow>
                   (let s2 = s1\<lparr>status_counts := c1\<rparr>
                    in case counts_add ''failed'' 1 c1 of
                         Inl e \<Rightarrow> Raises e s2
                       | Inr c2 \<Rightarrow> Returns True (s2\<lparr>status_counts := c2\<rparr>))))"

definition get_task_error :: "string \<Rightarrow> manager \<Rightarrow> string option" where
  "get_task_error tid s = (case map_of (tasks s) tid of None \<Rightarrow> None | Some t \<Rightarrow> error t)"

definition get_task_retry_count :: "string \<Rightarrow> manager \<Rightarrow> int" where
  "get_task_retry_count tid s =
     (case map_of (tasks s) tid of None \<Rightarrow> 0 | Some t \<Rightarrow> retry_count t)"

fun cleanup_loop :: "string list \<Rightarrow> manager \<Rightarrow> unit outcome" where
  "cleanup_loop [] s = Returns () s"
| "cleanup_loop (tid # rest) s =
     (let s1 = s\<lparr>tasks := AList.delete tid (tasks s)\<rparr>
      in case counts_add ''completed'' (- 1) (status_counts s1) of
           Inl e \<Rightarrow> Raises e s1
         | Inr c \<Rightarrow> cleanup_loop rest (s1\<lparr>status_counts := c\<rparr>))"

definition cleanup_completed_tasks :: "manager \<Rightarrow> int outcome" where
  "cleanup_completed_tasks =
     with_lock (\<lambda>s.
       let completed_tasks = map fst (filter (\<lambda>(tid, t). status t = ''completed'') (tasks s))
       in case cleanup_loop completed_tasks s of
            Returns u s' \<Rightarrow> Returns (int (length completed_tasks)) s'
          | Raises e s' \<Rightarrow> Raises e s'
          | Blocked s' \<Rightarrow> Blocked s')"

definition get_task_stats :: "manager \<Rightarrow> (string \<times> int) list" where
  "get_task_stats s = status_counts s"

subsection \<open>Observations used by the properties\<close>

definition status_names :: "string list" where
  "status_names = [''pending'', ''processing'', ''completed'', ''failed'']"

text \<open>The number of task records whose status field is \<open>st\<close>.\<close>

definition count_status :: "string \<Rightarrow> manager \<Rightarrow> int" where
  "count_status st s = int (length (filter (\<lambda>(tid, t). status t = st) (tasks s)))"

text \<open>The value \<open>get_task_stats()[st]\<close>; \<open>None\<close> when the dictionary has no such key.\<close>

text \<open>The number of task records the manager holds.\<close>

definition live_tasks :: "manager \<Rightarrow> int" where
  "live_tasks s = int (length (tasks s))"

definition stat :: "string \<Rightarrow> manager \<Rightarrow> int option" where
  "stat st s = map_of (get_task_stats s) st"

definition stats_total :: "manager \<Rightarrow> int" where
  "stats_total s =
     dict_get (get_task_stats s) ''pending'' 0 + dict_get (get_task_stats s) ''processing'' 0 +
     dict_get (get_task_stats s) ''completed'' 0 + dict_get (get_task_stats s) ''failed'' 0"

text \<open>
  The shape every state of the manager has between two calls: the counter dictionary
  has the four keys \<open>__init__\<close> gave it, the task dictionary has distinct keys, and every
  status field holds one of the four names.
\<close>

definition well_formed :: "manager \<Rightarrow> bool" where
  "well_formed s \<longleftrightarrow>
     map fst (status_counts s) = status_names \<and>
     distinct (map fst (tasks s)) \<and>
     (\<forall>(tid, t) \<in> set (tasks s). status t \<in> set status_names)"

text \<open>
  The order in which the queue serves its entries: an entry \<open>(-p, i)\<close> is served no later
  than \<open>(-p', i')\<close> when its priority is higher, or the priorities are equal and its
  task identifier is not greater as a string.
\<close>

fun served_before :: "(int \<times> string) \<Rightarrow> (int \<times> string) \<Rightarrow> bool" where
  "served_before (np, i) (np', i') \<longleftrightarrow> - np > - np' \<or> (np = np' \<and> i \<le> i')"

text \<open>Draining: \<open>get\<close> repeated until the queue is empty.\<close>

fun drain :: "nat \<Rightarrow> (int \<times> string) list \<Rightarrow> (int \<times> string) list" where
  "drain 0 q = []"
| "drain (Suc n) q = (case q_get q of None \<Rightarrow> [] | Some (e, q') \<Rightarrow> e # drain n q')"

definition q_drain :: "(int \<times> string) list \<Rightarrow> (int \<times> string) list" where
  "q_drain q = drain (qsize q) q"

text \<open>A queue entry whose task identifier has no record.\<close>

definition absent :: "manager \<Rightarrow> (int \<times> string) \<Rightarrow> bool" where
  "absent s e \<longleftrightarrow> map_of (tasks s) (snd e) = None"

text \<open>
  A task identifier whose record is pending, and one whose record exists and is not
  pending.
\<close>

definition pending_id :: "manager \<Rightarrow> string \<Rightarrow> bool" where
  "pending_id s tid \<longleftrightarrow>
     (case map_of (tasks s) tid of None \<Rightarrow> False | Some t \<Rightarrow> status t = ''pending'')"

definition stale_id :: "manager \<Rightarrow> string \<Rightarrow> bool" where
  "stale_id s tid \<longleftrightarrow>
     (case map_of (tasks s) tid of None \<Rightarrow> False | Some t \<Rightarrow> status t \<noteq> ''pending'')"

text \<open>
  The entries a call puts back on the queue, read off the entries it has taken: an
  entry is put back when its identifier has not been taken before in the call (\<open>seen\<close>
  holds the identifiers taken so far) and its record exists and is not pending.
\<close>

fun put_backs :: "manager \<Rightarrow> string set \<Rightarrow> (int \<times> string) list \<Rightarrow> (int \<times> string) list" where
  "put_backs s seen [] = []"
| "put_backs s seen (e # es) =
     (if snd e \<notin> seen \<and> stale_id s (snd e)
      then e # put_backs s (insert (snd e) seen) es
      else put_backs s (insert (snd e) seen) es)"

subsection \<open>Sequences of calls\<close>

text \<open>
  The calls that change the manager, with their arguments; \<open>after c s\<close> is the state a
  call leaves, whether it returned, raised or blocked, and \<open>failure c s\<close> the exception it
  raised, if any.
\<close>

datatype call =
    Add_task string nat "(string \<times> int) list"
  | Update_task_status string string nat
  | Get_next_batch nat
  | Retry_failed_task string nat
  | Update_task_progress string int nat
  | Update_task_error string string nat
  | Cleanup_completed_tasks

fun after :: "call \<Rightarrow> manager \<Rightarrow> manager" where
  "after (Add_task tid now info) s = state_of (add_task tid now info s)"
| "after (Update_task_status tid st now) s = state_of (update_task_status tid st now s)"
| "after (Get_next_batch now) s = state_of (get_next_batch now s)"
| "after (Retry_failed_task tid now) s = state_of (retry_failed_task tid now s)"
| "after (Update_task_progress tid v now) s = state_of (update_task_progress tid v now s)"
| "after (Update_task_error tid msg now) s = state_of (update_task_error tid msg now s)"
| "after Cleanup_completed_tasks s = state_of (cleanup_completed_tasks s)"

fun failure :: "call \<Rightarrow> manager \<Rightarrow> exn option" where
  "failure (Add_task tid now info) s = raised (add_task tid now info s)"
| "failure (Update_task_status tid st now) s = raised (update_task_status tid st now s)"
| "failure (Get_next_batch now) s = raised (get_next_batch now s)"
| "failure (Retry_failed_task tid now) s = raised (retry_failed_task tid now s)"
| "failure (Update_task_progress tid v now) s = raised (update_task_progress tid v now s)"
| "failure (Update_task_error tid msg now) s = raised (update_task_error tid msg now s)"
| "failure Cleanup_completed_tasks s = raised (cleanup_completed_tasks s)"

text \<open>
  The inputs the class is written for: \<open>uuid4\<close> gives \<open>add_task\<close> an identifier no record
  has, and a status handed to \<open>update_task_status\<close> is one of the four names.
\<close>

fun known_input :: "call \<Rightarrow> manager \<Rightarrow> bool" where
  "known_input (Add_task tid now info) s \<longleftrightarrow> tid \<notin> fst ` set (tasks s)"
| "known_input (Update_task_status tid st now) s \<longleftrightarrow> st \<in> set status_names"
| "known_input c s \<longleftrightarrow> True"

text \<open>
  The narrower use in which, besides, an error is reported only for a task that is
  \<open>processing\<close>.
\<close>

fun in_protocol :: "call \<Rightarrow> manager \<Rightarrow> bool" where
  "in_protocol (Update_task_error tid msg now) s \<longleftrightarrow>
     (case map_of (tasks s) tid of None \<Rightarrow> True | Some t \<Rightarrow> status t = ''processing'')"
| "in_protocol c s \<longleftrightarrow> known_input c s"

text \<open>The states the manager can be in after \<open>__init__\<close> and any number of such calls.\<close>

inductive reachable :: "manager \<Rightarrow> bool" where
  start: "reachable (init config)"
| call: "reachable s \<Longrightarrow> known_input c s \<Longrightarrow> reachable (after c s)"

inductive reachable_in_protocol :: "manager \<Rightarrow> bool" where
  start: "reachable_in_protocol (init config)"
| call: "reachable_in_protocol s \<Longrightarrow> in_protocol c s \<Longrightarrow> reachable_in_protocol (after c s)"

text \<open>
  Two invariants: the counters add up to the number of records, and each counter is the
  number of records with its status.
\<close>

definition balanced :: "manager \<Rightarrow> bool" where
  "balanced s \<longleftrightarrow> well_formed s \<and> stats_total s = live_tasks s"

definition count_in :: "string \<Rightarrow> (string \<times> task) list \<Rightarrow> int" where
  "count_in st T = int (length (filter (\<lambda>(tid, t). status t = st) T))"

definition counted :: "manager \<Rightarrow> bool" where
  "counted s \<longleftrightarrow>
     well_formed s \<and> status_counts s = map (\<lambda>st. (st, count_status st s)) status_names"

subsection \<open>Example runs\<close>

text \<open>One task \<open>a\<close> submitted with the default priority.\<close>

definition one_pending :: manager where
  "one_pending = state_of (add_task ''a'' 1 [] (init []))"

text \<open>The same task taken to \<open>processing\<close>, and then to \<open>completed\<close>.\<close>

definition one_processing :: manager where
  "one_processing = state_of (update_task_status ''a'' ''processing'' 2 one_pending)"

definition one_completed :: manager where
  "one_completed = state_of (update_task_status ''a'' ''completed'' 3 one_processing)"

text \<open>Two tasks of equal priority, \<open>b\<close> submitted before \<open>a\<close>.\<close>

definition two_equal :: manager where
  "two_equal =
     state_of (add_task ''a'' 2 [(''priority'', 1)]
       (state_of (add_task ''b'' 1 [(''priority'', 1)] (init []))))"

text \<open>Three tasks with the priorities 1, 10 and 5, submitted in that order.\<close>

definition three_priorities :: manager where
  "three_priorities =
     state_of (add_task ''t5'' 3 [(''priority'', 5)]
       (state_of (add_task ''t10'' 2 [(''priority'', 10)]
         (state_of (add_task ''t1'' 1 [(''priority'', 1)] (init []))))))"

text \<open>The task \<open>a\<close> in \<open>processing\<close>, then reported as failed, then retried.\<close>

definition one_failed :: manager where
  "one_failed = state_of (update_task_error ''a'' ''boom'' 3 one_processing)"

definition one_retried :: manager where
  "one_retried = state_of (retry_failed_task ''a'' 4 one_failed)"

text \<open>An error reported for the task \<open>a\<close> while it is still \<open>pending\<close>.\<close>

definition pending_reported :: manager where
  "pending_reported = state_of (update_task_error ''a'' ''boom'' 2 one_pending)"

text \<open>A status that is none of the four names, requested for the pending task \<open>a\<close>.\<close>

definition pending_bogus :: manager where
  "pending_bogus = state_of (update_task_status ''a'' ''bogus'' 2 one_pending)"

text \<open>
  Two tasks \<open>a\<close> and \<open>b\<close>, of priorities 2 and 1, both taken to \<open>processing\<close>; their
  entries are still queued.
\<close>

definition two_stale :: manager where
  "two_stale =
     state_of (update_task_status ''b'' ''processing'' 4
       (state_of (update_task_status ''a'' ''processing'' 3
         (state_of (add_task ''b'' 2 [(''priority'', 1)]
           (state_of (add_task ''a'' 1 [(''priority'', 2)] (init []))))))))"

text \<open>
  A task \<open>a\<close> of priority 3 marked \<open>failed\<close> and retried: it is pending, and the queue
  holds its first entry and the one the retry added.
\<close>

definition duplicate_queued :: manager where
  "duplicate_queued =
     state_of (retry_failed_task ''a'' 3
       (state_of (update_task_status ''a'' ''failed'' 2
         (state_of (add_task ''a'' 1 [(''priority'', 3)] (init []))))))"

section \<open>Properties\<close>

subsection \<open>The lock\<close>

lemma with_lock_held: "lock s \<Longrightarrow> with_lock body s = Blocked s"
  by (simp add: with_lock_def)

lemma unlock_relock: "\<not> lock s \<Longrightarrow> s\<lparr>lock := True\<rparr>\<lparr>lock := False\<rparr> = s"
  by simp

lemma update_task_status_held: "lock s \<Longrightarrow> update_task_status tid st now s = Blocked s"
  by (simp add: update_task_status_def with_lock_held)

subsection \<open>The queue\<close>

lemma fold_min_Min: "fold min xs (x::int \<times> string) = Min (set (x # xs))"
  by (rule Min.set_eq_fold[symmetric])

lemma q_get_None: "q_get q = None \<longleftrightarrow> q = []"
  by (simp add: q_get_def Let_def split: list.splits)

lemma q_get_Some:
  assumes "q_get q = Some (e, q')"
  shows "e \<in> set q" and "q' = remove1 e q" and "\<forall>x \<in> set q. e \<le> x"
proof -
  from assms obtain x xs where q: "q = x # xs" and e: "e = fold min xs x" and q': "q' = remove1 e q"
    by (auto simp: q_get_def Let_def split: list.splits)
  have m: "e = Min (set q)" using e q by (simp add: fold_min_Min)
  show "e \<in> set q" unfolding m using q by (intro Min_in) auto
  show "q' = remove1 e q" by (rule q')
  show "\<forall>x \<in> set q. e \<le> x" unfolding m by (auto intro: Min_le)
qed

lemma q_get_mset: "q_get q = Some (e, q') \<Longrightarrow> mset q = add_mset e (mset q')"
  using q_get_Some(1,2)[of q e q'] by simp

lemma q_get_length: "q_get q = Some (e, q') \<Longrightarrow> length q = Suc (length q')"
  using q_get_mset[of q e q'] by (metis size_mset size_add_mset)

lemma q_get_subset: "q_get q = Some (e, q') \<Longrightarrow> set q' \<subseteq> set q"
  using q_get_Some(2)[of q e q'] set_remove1_subset[of e q] by simp

lemma served_before_le: "served_before e e' \<longleftrightarrow> e \<le> e'"
  by (cases e; cases e') auto

lemma drain_set: "set (drain n q) \<subseteq> set q"
proof (induction n arbitrary: q)
  case 0 show ?case by simp
next
  case (Suc n)
  show ?case
  proof (cases "q_get q")
    case None then show ?thesis by simp
  next
    case (Some p)
    obtain e q' where p: "p = (e, q')" by (cases p)
    have "set q' \<subseteq> set q" using q_get_subset[of q e q'] Some p by simp
    moreover have "e \<in> set q" using q_get_Some(1)[of q e q'] Some p by simp
    ultimately show ?thesis using Suc.IH[of q'] Some p by auto
  qed
qed

lemma drain_sorted: "sorted_wrt served_before (drain n q)"
proof (induction n arbitrary: q)
  case 0 show ?case by simp
next
  case (Suc n)
  show ?case
  proof (cases "q_get q")
    case None then show ?thesis by simp
  next
    case (Some p)
    obtain e q' where p: "p = (e, q')" by (cases p)
    have sub: "set q' \<subseteq> set q" using q_get_subset[of q e q'] Some p by simp
    have "\<forall>x \<in> set q. served_before e x" using q_get_Some(3)[of q e q'] Some p by (simp add: served_before_le)
    then have "\<forall>x \<in> set (drain n q'). served_before e x" using sub drain_set[of n q'] by blast
    then show ?thesis using Suc.IH[of q'] Some p by simp
  qed
qed

lemma drain_mset: "length q \<le> n \<Longrightarrow> mset (drain n q) = mset q"
proof (induction n arbitrary: q)
  case 0 then show ?case by simp
next
  case (Suc n)
  show ?case
  proof (cases "q_get q")
    case None
    then have "q = []" by (simp add: q_get_None)
    with None show ?thesis by simp
  next
    case (Some p)
    obtain e q' where p: "p = (e, q')" by (cases p)
    have "length q' \<le> n" using q_get_length[of q e q'] Some p Suc.prems by simp
    then show ?thesis using Suc.IH[of q'] Some p q_get_mset[of q e q'] by simp
  qed
qed

subsection \<open>The scanning loop\<close>

lemma log_pop_fst: "fst (log_pop e r) = fst r"
  by (cases r) simp

lemma log_pop_snd: "snd (log_pop e r) = e # snd r"
  by (cases r) simp

lemma loop_pops_bound: "length (snd (next_batch_loop now n batch seen s)) \<le> n"
proof (induction n arbitrary: batch seen s)
  case 0 show ?case by simp
next
  case (Suc n)
  have ih: "\<And>b se st. length (snd (next_batch_loop now n b se st)) \<le> Suc n"
    using Suc.IH le_SucI by blast
  show ?case
    by (simp add: log_pop_snd Let_def Suc.IH ih split: option.splits outcome.splits prod.splits)
qed

lemma absent_queue: "absent (s\<lparr>task_queue := q\<rparr>) = absent s"
  by (simp add: absent_def fun_eq_iff)

lemma sub_add: "A \<subseteq># B \<Longrightarrow> A \<subseteq># add_mset e B"
  by (simp add: subseteq_mset_def le_SucI)

lemma loop_held:
  assumes "lock s"
  shows "\<exists>q'. (fst (next_batch_loop now n batch seen s) = Returns batch (s\<lparr>task_queue := q'\<rparr>) \<or>
               fst (next_batch_loop now n batch seen s) = Blocked (s\<lparr>task_queue := q'\<rparr>)) \<and>
              mset q' + mset (filter (absent s) (snd (next_batch_loop now n batch seen s)))
                \<subseteq># mset (task_queue s)"
  using assms
proof (induction n arbitrary: seen s)
  case 0
  show ?case by (rule exI[of _ "task_queue s"]) simp
next
  case (Suc n)
  show ?case
  proof (cases "batch_size s \<le> int (length batch) \<or> q_empty (task_queue s)")
    case True
    then show ?thesis by (intro exI[of _ "task_queue s"]) auto
  next
    case False
    then have "task_queue s \<noteq> []" by (simp add: q_empty_def qsize_def)
    then obtain e q1 where g: "q_get (task_queue s) = Some (e, q1)"
      using q_get_None[of "task_queue s"] by (cases "q_get (task_queue s)") auto
    obtain np tid where e: "e = (np, tid)" by (cases e)
    let ?s1 = "s\<lparr>task_queue := q1\<rparr>"
    have ms: "mset (task_queue s) = add_mset e (mset q1)" by (rule q_get_mset[OF g])
    have l1: "lock ?s1" using Suc.prems by simp
    consider (seen) "tid \<in> seen"
      | (gone) "tid \<notin> seen" "map_of (tasks s) tid = None"
      | (pending) t where "tid \<notin> seen" "map_of (tasks s) tid = Some t" "status t = ''pending''"
      | (stale) t where "tid \<notin> seen" "map_of (tasks s) tid = Some t" "status t \<noteq> ''pending''"
      by (cases "map_of (tasks s) tid") auto
    then show ?thesis
    proof cases
      case seen
      have R: "next_batch_loop now (Suc n) batch seen s = log_pop e (next_batch_loop now n batch seen ?s1)"
        using False g e seen by simp
      from Suc.IH[OF l1, of seen] obtain q' where
        q': "fst (next_batch_loop now n batch seen ?s1) = Returns batch (?s1\<lparr>task_queue := q'\<rparr>) \<or>
             fst (next_batch_loop now n batch seen ?s1) = Blocked (?s1\<lparr>task_queue := q'\<rparr>)"
        and sub: "mset q' + mset (filter (absent ?s1) (snd (next_batch_loop now n batch seen ?s1))) \<subseteq># mset q1"
        by auto
      have "mset q' + mset (filter (absent s) (snd (next_batch_loop now (Suc n) batch seen s)))
              \<subseteq># mset (task_queue s)"
        using sub by (simp add: R log_pop_snd ms absent_queue sub_add del: next_batch_loop.simps)
      then show ?thesis using q' by (intro exI[of _ q']) (simp add: R log_pop_fst del: next_batch_loop.simps)
    next
      case gone
      have R: "next_batch_loop now (Suc n) batch seen s = log_pop e (next_batch_loop now n batch (insert tid seen) ?s1)"
        using False g e gone by simp
      from Suc.IH[OF l1, of "insert tid seen"] obtain q' where
        q': "fst (next_batch_loop now n batch (insert tid seen) ?s1) = Returns batch (?s1\<lparr>task_queue := q'\<rparr>) \<or>
             fst (next_batch_loop now n batch (insert tid seen) ?s1) = Blocked (?s1\<lparr>task_queue := q'\<rparr>)"
        and sub: "mset q' + mset (filter (absent ?s1) (snd (next_batch_loop now n batch (insert tid seen) ?s1))) \<subseteq># mset q1"
        by auto
      have ab: "absent s e" using gone e by (simp add: absent_def)
      have "mset q' + mset (filter (absent s) (snd (next_batch_loop now (Suc n) batch seen s)))
              \<subseteq># mset (task_queue s)"
        using sub ab by (simp add: R log_pop_snd ms absent_queue del: next_batch_loop.simps)
      then show ?thesis using q' by (intro exI[of _ q']) (simp add: R log_pop_fst del: next_batch_loop.simps)
    next
      case pending
      have R: "next_batch_loop now (Suc n) batch seen s = log_pop e (Blocked ?s1, [])"
        using False g e pending update_task_status_held[OF l1] by simp
      have ab: "\<not> absent s e" using pending e by (simp add: absent_def)
      show ?thesis using ab by (intro exI[of _ q1]) (simp add: R ms del: next_batch_loop.simps)
    next
      case stale
      let ?s2 = "?s1\<lparr>task_queue := q_put e (task_queue ?s1)\<rparr>"
      have l2: "lock ?s2" using Suc.prems by simp
      have R: "next_batch_loop now (Suc n) batch seen s = log_pop e (next_batch_loop now n batch (insert tid seen) ?s2)"
        using False g e stale by simp
      from Suc.IH[OF l2, of "insert tid seen"] obtain q' where
        q': "fst (next_batch_loop now n batch (insert tid seen) ?s2) = Returns batch (?s2\<lparr>task_queue := q'\<rparr>) \<or>
             fst (next_batch_loop now n batch (insert tid seen) ?s2) = Blocked (?s2\<lparr>task_queue := q'\<rparr>)"
        and sub: "mset q' + mset (filter (absent ?s2) (snd (next_batch_loop now n batch (insert tid seen) ?s2))) \<subseteq># mset (q_put e q1)"
        by auto
      have ab: "\<not> absent s e" using stale e by (simp add: absent_def)
      have "mset q' + mset (filter (absent s) (snd (next_batch_loop now (Suc n) batch seen s)))
              \<subseteq># mset (task_queue s)"
        using sub ab by (simp add: R log_pop_snd ms absent_queue q_put_def del: next_batch_loop.simps)
      then show ?thesis using q' by (intro exI[of _ q']) (simp add: R log_pop_fst del: next_batch_loop.simps)
    qed
  qed
qed

subsection \<open>The counters\<close>

lemma counts_add_present: "map_of c k = Some v \<Longrightarrow> counts_add k d c = Inr (AList.update k (v + d) c)"
  by (simp add: counts_add_def)

lemma counts_add_missing: "map_of c k = None \<Longrightarrow> counts_add k d c = Inl (KeyError k)"
  by (simp add: counts_add_def)

lemma counts_key_present:
  "map fst c = status_names \<Longrightarrow> k \<in> set status_names \<Longrightarrow> \<exists>v. map_of c k = Some v"
  by (metis map_of_eq_None_iff not_Some_eq set_map)

lemma update_present_keys:
  "map_of c k = Some v \<Longrightarrow> map fst (AList.update k w c) = map fst c"
  by (simp add: update_keys map_of_eq_None_iff[symmetric] del: map_of_eq_None_iff)

lemma well_formed_status:
  "well_formed s \<Longrightarrow> map_of (tasks s) tid = Some t \<Longrightarrow> status t \<in> set status_names"
  by (auto simp: well_formed_def dest!: map_of_SomeD)

subsection \<open>One call of \<open>get_next_batch\<close>\<close>

lemma absent_lock: "absent (s\<lparr>lock := b\<rparr>) = absent s"
  by (simp add: absent_def fun_eq_iff)

lemma scan_bound_lock: "scan_bound (s\<lparr>lock := b\<rparr>) = scan_bound s"
  by (simp add: scan_bound_def)

lemma returned_with_lock:
  "\<not> lock s \<Longrightarrow> returned (with_lock body s) = returned (body (s\<lparr>lock := True\<rparr>))"
  by (simp add: with_lock_def split: outcome.splits)

lemma get_next_batch_held: "lock s \<Longrightarrow> get_next_batch now s = Blocked s"
  by (simp add: get_next_batch_def with_lock_held)

lemma get_next_batch_free:
  assumes "\<not> lock s"
  shows "\<exists>q'. (get_next_batch now s = Returns [] (s\<lparr>task_queue := q'\<rparr>) \<or>
               get_next_batch now s = Blocked (s\<lparr>task_queue := q', lock := True\<rparr>)) \<and>
              mset q' + mset (filter (absent s) (get_next_batch_pops now s)) \<subseteq># mset (task_queue s)"
proof -
  let ?s0 = "s\<lparr>lock := True\<rparr>"
  let ?R = "next_batch_loop now (scan_bound s) [] {} ?s0"
  have "lock ?s0" by simp
  from loop_held[OF this, of now "scan_bound s" "[]" "{}"] obtain q' where
    r: "fst ?R = Returns [] (?s0\<lparr>task_queue := q'\<rparr>) \<or> fst ?R = Blocked (?s0\<lparr>task_queue := q'\<rparr>)"
    and sub: "mset q' + mset (filter (absent ?s0) (snd ?R)) \<subseteq># mset (task_queue ?s0)"
    by blast
  have pops: "get_next_batch_pops now s = snd ?R"
    using assms by (simp add: get_next_batch_pops_def)
  have run: "get_next_batch now s = Returns [] (s\<lparr>task_queue := q'\<rparr>) \<or>
             get_next_batch now s = Blocked (s\<lparr>task_queue := q', lock := True\<rparr>)"
    using r assms by (auto simp: get_next_batch_def with_lock_def scan_bound_lock)
  show ?thesis using run sub by (intro exI[of _ q']) (simp add: pops absent_lock)
qed

text \<open>
  A call of \<open>get_next_batch\<close> that returns, returns the empty batch: the first pending
  task the loop meets makes it block.
\<close>

lemma get_next_batch_returns_empty:
  assumes "returned (get_next_batch now s) = Some b"
  shows "b = []"
proof (cases "lock s")
  case True
  then show ?thesis using assms get_next_batch_held[of s now] by simp
next
  case False
  then show ?thesis using assms get_next_batch_free[OF False, of now] by auto
qed

lemma loop_distinct:
  "distinct batch \<Longrightarrow> set batch \<subseteq> seen \<Longrightarrow>
   returned (fst (next_batch_loop now n batch seen s)) = Some b \<Longrightarrow> distinct b"
proof (induction n arbitrary: batch seen s)
  case 0 then show ?case by simp
next
  case (Suc n)
  show ?case
  proof (cases "batch_size s \<le> int (length batch) \<or> q_empty (task_queue s)")
    case True
    then have "fst (next_batch_loop now (Suc n) batch seen s) = Returns batch s" by auto
    then show ?thesis using Suc.prems by simp
  next
    case False
    then have "task_queue s \<noteq> []" by (simp add: q_empty_def qsize_def)
    then obtain e q1 where g: "q_get (task_queue s) = Some (e, q1)"
      using q_get_None[of "task_queue s"] by (cases "q_get (task_queue s)") auto
    obtain np tid where e: "e = (np, tid)" by (cases e)
    let ?s1 = "s\<lparr>task_queue := q1\<rparr>"
    consider (seen) "tid \<in> seen"
      | (gone) "tid \<notin> seen" "map_of (tasks s) tid = None"
      | (pending) t where "tid \<notin> seen" "map_of (tasks s) tid = Some t" "status t = ''pending''"
      | (stale) t where "tid \<notin> seen" "map_of (tasks s) tid = Some t" "status t \<noteq> ''pending''"
      by (cases "map_of (tasks s) tid") auto
    then show ?thesis
    proof cases
      case seen
      have "next_batch_loop now (Suc n) batch seen s = log_pop e (next_batch_loop now n batch seen ?s1)"
        using False g e seen by simp
      then show ?thesis using Suc.prems Suc.IH[of batch seen ?s1] by (simp add: log_pop_fst del: next_batch_loop.simps)
    next
      case gone
      have "next_batch_loop now (Suc n) batch seen s = log_pop e (next_batch_loop now n batch (insert tid seen) ?s1)"
        using False g e gone by simp
      then show ?thesis using Suc.prems Suc.IH[of batch "insert tid seen" ?s1]
        by (auto simp add: log_pop_fst simp del: next_batch_loop.simps)
    next
      case stale
      have "next_batch_loop now (Suc n) batch seen s = log_pop e (next_batch_loop now n batch (insert tid seen)
              (?s1\<lparr>task_queue := q_put e (task_queue ?s1)\<rparr>))"
        using False g e stale by simp
      then show ?thesis using Suc.prems Suc.IH[of batch "insert tid seen" "?s1\<lparr>task_queue := q_put e (task_queue ?s1)\<rparr>"]
        by (auto simp add: log_pop_fst simp del: next_batch_loop.simps)
    next
      case pending
      have d: "distinct (batch @ [tid])" and sb: "set (batch @ [tid]) \<subseteq> insert tid seen"
        using Suc.prems pending(1) by auto
      show ?thesis
      proof (cases "update_task_status tid ''processing'' now ?s1")
        case (Returns ok s2)
        have "next_batch_loop now (Suc n) batch seen s = log_pop e (next_batch_loop now n (batch @ [tid]) (insert tid seen) s2)"
          using False g e pending Returns by simp
        then show ?thesis using Suc.prems(3) Suc.IH[OF d sb, of s2]
          by (simp add: log_pop_fst del: next_batch_loop.simps)
      next
        case (Raises ex s2)
        have "next_batch_loop now (Suc n) batch seen s = log_pop e (next_batch_loop now n (batch @ [tid]) (insert tid seen) s2)"
          using False g e pending Raises by simp
        then show ?thesis using Suc.prems(3) Suc.IH[OF d sb, of s2]
          by (simp add: log_pop_fst del: next_batch_loop.simps)
      next
        case (Blocked s2)
        have "next_batch_loop now (Suc n) batch seen s = log_pop e (Blocked s2, [])"
          using False g e pending Blocked by simp
        then show ?thesis using Suc.prems(3) by simp
      qed
    qed
  qed
qed

subsection \<open>The queue after one call\<close>

lemma put_backs_frame:
  "tasks s' = tasks s \<Longrightarrow> put_backs s' seen es = put_backs s seen es"
  by (induction es arbitrary: seen) (simp_all add: stale_id_def)

lemma put_backs_queue: "put_backs (s\<lparr>task_queue := q\<rparr>) seen es = put_backs s seen es"
  by (rule put_backs_frame) simp

lemma put_backs_lock: "put_backs (s\<lparr>lock := b\<rparr>) seen es = put_backs s seen es"
  by (rule put_backs_frame) simp

lemma pending_id_queue: "pending_id (s\<lparr>task_queue := q\<rparr>) x = pending_id s x"
  by (simp add: pending_id_def)

lemma pending_id_lock: "pending_id (s\<lparr>lock := b\<rparr>) x = pending_id s x"
  by (simp add: pending_id_def)

lemma put_backs_stale: "e \<in> set (put_backs s seen es) \<Longrightarrow> e \<in> set es \<and> stale_id s (snd e)"
  by (induction es arbitrary: seen) (auto split: if_splits)

lemma put_backs_sub: "mset (put_backs s seen es) \<subseteq># mset es"
  by (induction es arbitrary: seen) (auto simp: sub_add)

lemma put_backs_once:
  assumes "e \<in> set es" and "snd e \<notin> seen" and "stale_id s (snd e)"
    and "length (filter (\<lambda>x. snd x = snd e) es) = 1"
  shows "count (mset (put_backs s seen es)) e = 1"
  using assms
proof (induction es arbitrary: seen)
  case Nil then show ?case by simp
next
  case (Cons x xs)
  show ?case
  proof (cases "snd x = snd e")
    case True
    then have none: "filter (\<lambda>x. snd x = snd e) xs = []" using Cons.prems(4) by simp
    then have "e \<notin> set xs" by (auto simp: filter_empty_conv)
    then have xe: "x = e" using Cons.prems(1) by simp
    have "e \<notin> set (put_backs s (insert (snd e) seen) xs)"
      using \<open>e \<notin> set xs\<close> put_backs_stale by blast
    then show ?thesis using xe Cons.prems(2,3) by (simp add: count_eq_zero_iff)
  next
    case False
    then have "x \<noteq> e" by auto
    have e: "e \<in> set xs" using Cons.prems(1) \<open>x \<noteq> e\<close> by simp
    have n: "snd e \<notin> insert (snd x) seen" using False Cons.prems(2) by auto
    have l: "length (filter (\<lambda>x. snd x = snd e) xs) = 1" using Cons.prems(4) False by simp
    from Cons.IH[OF e n Cons.prems(3) l] show ?thesis using \<open>x \<noteq> e\<close> by simp
  qed
qed

lemma pending_not_stale: "pending_id s tid \<Longrightarrow> \<not> stale_id s tid"
  by (auto simp: pending_id_def stale_id_def split: option.splits)

lemma loop_exact:
  assumes "lock s"
  shows "\<exists>q'. (fst (next_batch_loop now n batch seen s) = Returns batch (s\<lparr>task_queue := q'\<rparr>) \<or>
               fst (next_batch_loop now n batch seen s) = Blocked (s\<lparr>task_queue := q'\<rparr>)) \<and>
              mset q' + mset (snd (next_batch_loop now n batch seen s)) =
                mset (task_queue s) + mset (put_backs s seen (snd (next_batch_loop now n batch seen s))) \<and>
              ((\<forall>e \<in> set (snd (next_batch_loop now n batch seen s)). snd e \<in> seen \<or> \<not> pending_id s (snd e)) \<longrightarrow>
                 fst (next_batch_loop now n batch seen s) = Returns batch (s\<lparr>task_queue := q'\<rparr>))"
  using assms
proof (induction n arbitrary: seen s)
  case 0
  show ?case by (rule exI[of _ "task_queue s"]) simp
next
  case (Suc n)
  show ?case
  proof (cases "batch_size s \<le> int (length batch) \<or> q_empty (task_queue s)")
    case True
    then show ?thesis by (intro exI[of _ "task_queue s"]) auto
  next
    case False
    then have "task_queue s \<noteq> []" by (simp add: q_empty_def qsize_def)
    then obtain e q1 where g: "q_get (task_queue s) = Some (e, q1)"
      using q_get_None[of "task_queue s"] by (cases "q_get (task_queue s)") auto
    obtain np tid where e: "e = (np, tid)" by (cases e)
    let ?s1 = "s\<lparr>task_queue := q1\<rparr>"
    have ms: "mset (task_queue s) = add_mset e (mset q1)" by (rule q_get_mset[OF g])
    have l1: "lock ?s1" using Suc.prems by simp
    consider (seen) "tid \<in> seen"
      | (gone) "tid \<notin> seen" "map_of (tasks s) tid = None"
      | (pending) t where "tid \<notin> seen" "map_of (tasks s) tid = Some t" "status t = ''pending''"
      | (stale) t where "tid \<notin> seen" "map_of (tasks s) tid = Some t" "status t \<noteq> ''pending''"
      by (cases "map_of (tasks s) tid") auto
    then show ?thesis
    proof cases
      case seen
      let ?R' = "next_batch_loop now n batch seen ?s1"
      have R: "next_batch_loop now (Suc n) batch seen s = log_pop e ?R'"
        using False g e seen by simp
      have ins: "insert tid seen = seen" using seen by auto
      from Suc.IH[OF l1, of seen] obtain q' where
        q': "fst ?R' = Returns batch (?s1\<lparr>task_queue := q'\<rparr>) \<or> fst ?R' = Blocked (?s1\<lparr>task_queue := q'\<rparr>)"
        and eq: "mset q' + mset (snd ?R') = mset q1 + mset (put_backs s seen (snd ?R'))"
        and ret: "(\<forall>x \<in> set (snd ?R'). snd x \<in> seen \<or> \<not> pending_id s (snd x)) \<longrightarrow>
                    fst ?R' = Returns batch (?s1\<lparr>task_queue := q'\<rparr>)"
        by (auto simp: put_backs_queue pending_id_queue)
      show ?thesis
        using q' eq ret seen
        by (intro exI[of _ q']) (simp add: R log_pop_fst log_pop_snd ms e ins del: next_batch_loop.simps)
    next
      case gone
      let ?R' = "next_batch_loop now n batch (insert tid seen) ?s1"
      have R: "next_batch_loop now (Suc n) batch seen s = log_pop e ?R'"
        using False g e gone by simp
      have ns: "\<not> stale_id s tid" using gone by (simp add: stale_id_def)
      have np': "\<not> pending_id s tid" using gone by (simp add: pending_id_def)
      from Suc.IH[OF l1, of "insert tid seen"] obtain q' where
        q': "fst ?R' = Returns batch (?s1\<lparr>task_queue := q'\<rparr>) \<or> fst ?R' = Blocked (?s1\<lparr>task_queue := q'\<rparr>)"
        and eq: "mset q' + mset (snd ?R') = mset q1 + mset (put_backs s (insert tid seen) (snd ?R'))"
        and ret: "(\<forall>x \<in> set (snd ?R'). snd x \<in> insert tid seen \<or> \<not> pending_id s (snd x)) \<longrightarrow>
                    fst ?R' = Returns batch (?s1\<lparr>task_queue := q'\<rparr>)"
        by (auto simp: put_backs_queue pending_id_queue)
      have ret': "(\<forall>x \<in> set (snd ?R'). snd x \<in> seen \<or> \<not> pending_id s (snd x)) \<longrightarrow>
                    fst ?R' = Returns batch (?s1\<lparr>task_queue := q'\<rparr>)"
        using ret by auto
      show ?thesis
        using q' eq ret' ns
        by (intro exI[of _ q']) (simp add: R log_pop_fst log_pop_snd ms e del: next_batch_loop.simps)
    next
      case pending
      have R: "next_batch_loop now (Suc n) batch seen s = log_pop e (Blocked ?s1, [])"
        using False g e pending update_task_status_held[OF l1] by simp
      have ns: "\<not> stale_id s tid" using pending by (simp add: stale_id_def)
      have pp: "pending_id s tid" using pending by (simp add: pending_id_def)
      show ?thesis using ns pp pending(1)
        by (intro exI[of _ q1]) (simp add: R ms e del: next_batch_loop.simps)
    next
      case stale
      let ?s2 = "?s1\<lparr>task_queue := q_put e (task_queue ?s1)\<rparr>"
      let ?R' = "next_batch_loop now n batch (insert tid seen) ?s2"
      have l2: "lock ?s2" using Suc.prems by simp
      have R: "next_batch_loop now (Suc n) batch seen s = log_pop e ?R'"
        using False g e stale by simp
      have st: "stale_id s tid" using stale by (simp add: stale_id_def)
      have np': "\<not> pending_id s tid" using stale by (simp add: pending_id_def)
      from Suc.IH[OF l2, of "insert tid seen"] obtain q' where
        q': "fst ?R' = Returns batch (?s2\<lparr>task_queue := q'\<rparr>) \<or> fst ?R' = Blocked (?s2\<lparr>task_queue := q'\<rparr>)"
        and eq: "mset q' + mset (snd ?R') = mset (q_put e q1) + mset (put_backs s (insert tid seen) (snd ?R'))"
        and ret: "(\<forall>x \<in> set (snd ?R'). snd x \<in> insert tid seen \<or> \<not> pending_id s (snd x)) \<longrightarrow>
                    fst ?R' = Returns batch (?s2\<lparr>task_queue := q'\<rparr>)"
        by (auto simp: put_backs_queue pending_id_queue)
      have ret': "(\<forall>x \<in> set (snd ?R'). snd x \<in> seen \<or> \<not> pending_id s (snd x)) \<longrightarrow>
                    fst ?R' = Returns batch (?s2\<lparr>task_queue := q'\<rparr>)"
        using ret by auto
      show ?thesis
        using q' eq ret' st stale(1)
        by (intro exI[of _ q']) (simp add: R log_pop_fst log_pop_snd ms e q_put_def del: next_batch_loop.simps)
    qed
  qed
qed

lemma get_next_batch_exact:
  assumes "\<not> lock s"
  shows "\<exists>q'. (get_next_batch now s = Returns [] (s\<lparr>task_queue := q'\<rparr>) \<or>
               get_next_batch now s = Blocked (s\<lparr>task_queue := q', lock := True\<rparr>)) \<and>
              mset q' + mset (get_next_batch_pops now s) =
                mset (task_queue s) + mset (put_backs s {} (get_next_batch_pops now s)) \<and>
              ((\<forall>e \<in> set (get_next_batch_pops now s). \<not> pending_id s (snd e)) \<longrightarrow>
                 get_next_batch now s = Returns [] (s\<lparr>task_queue := q'\<rparr>))"
proof -
  let ?s0 = "s\<lparr>lock := True\<rparr>"
  let ?R = "next_batch_loop now (scan_bound s) [] {} ?s0"
  have "lock ?s0" by simp
  from loop_exact[OF this, of now "scan_bound s" "[]" "{}"] obtain q' where
    r: "fst ?R = Returns [] (?s0\<lparr>task_queue := q'\<rparr>) \<or> fst ?R = Blocked (?s0\<lparr>task_queue := q'\<rparr>)"
    and eq: "mset q' + mset (snd ?R) = mset (task_queue s) + mset (put_backs s {} (snd ?R))"
    and ret: "(\<forall>e \<in> set (snd ?R). \<not> pending_id s (snd e)) \<longrightarrow>
                fst ?R = Returns [] (?s0\<lparr>task_queue := q'\<rparr>)"
    by (auto simp: put_backs_lock pending_id_lock)
  have pops: "get_next_batch_pops now s = snd ?R"
    using assms by (simp add: get_next_batch_pops_def)
  have run: "get_next_batch now s = Returns [] (s\<lparr>task_queue := q'\<rparr>) \<or>
             get_next_batch now s = Blocked (s\<lparr>task_queue := q', lock := True\<rparr>)"
    using r assms by (auto simp: get_next_batch_def with_lock_def scan_bound_lock)
  have ret': "(\<forall>e \<in> set (snd ?R). \<not> pending_id s (snd e)) \<longrightarrow>
                get_next_batch now s = Returns [] (s\<lparr>task_queue := q'\<rparr>)"
    using ret assms by (auto simp: get_next_batch_def with_lock_def scan_bound_lock)
  show ?thesis using run eq ret' by (intro exI[of _ q']) (simp add: pops)
qed

lemma count_le_ids: "count (mset xs) e \<le> length (filter (\<lambda>x. snd x = snd e) xs)"
  by (induction xs) auto

subsection \<open>Calls that fail, and the counters over sequences of calls\<close>

lemma counts_shape:
  assumes "map fst c = status_names"
  shows "\<exists>a b d e. c = [(''pending'', a), (''processing'', b), (''completed'', d), (''failed'', e)]"
  using assms unfolding status_names_def by (auto simp: map_eq_Cons_conv)

lemma update_fresh: "k \<notin> fst ` set al \<Longrightarrow> AList.update k v al = al @ [(k, v)]"
  by (induction al) auto

lemma update_split:
  "map_of al k = Some v \<Longrightarrow>
   \<exists>xs ys. al = xs @ (k, v) # ys \<and> k \<notin> fst ` set xs \<and> AList.update k v' al = xs @ (k, v') # ys"
proof (induction al)
  case Nil then show ?case by simp
next
  case (Cons p al)
  show ?case
  proof (cases "fst p = k")
    case True
    then have "p = (k, v)" using Cons.prems by (cases p) simp
    then show ?thesis by (intro exI[of _ "[]"] exI[of _ al]) simp
  next
    case False
    then have "map_of al k = Some v" using Cons.prems by (cases p) (simp split: if_splits)
    from Cons.IH[OF this] obtain xs ys where
      "al = xs @ (k, v) # ys" "k \<notin> fst ` set xs" "AList.update k v' al = xs @ (k, v') # ys" by blast
    then show ?thesis using False
      by (intro exI[of _ "p # xs"] exI[of _ ys]) (cases p, auto)
  qed
qed


lemma after_held: "lock s \<Longrightarrow> after c s = s"
  by (cases c)
    (simp_all add: add_task_def update_task_status_def get_next_batch_def retry_failed_task_def
      update_task_progress_def update_task_error_def cleanup_completed_tasks_def with_lock_held)

lemma stats_total_shape:
  "status_counts s = [(''pending'', a), (''processing'', b), (''completed'', d), (''failed'', e)]
   \<Longrightarrow> stats_total s = a + b + d + e"
  by (simp add: stats_total_def get_task_stats_def dict_get_def)

lemma balanced_frame:
  "balanced s \<Longrightarrow> tasks s' = tasks s \<Longrightarrow> status_counts s' = status_counts s \<Longrightarrow> balanced s'"
  by (simp add: balanced_def well_formed_def stats_total_def live_tasks_def get_task_stats_def)

lemma balanced_init: "balanced (init config)"
  by (simp add: balanced_def well_formed_def init_def status_names_def stats_total_def
      live_tasks_def get_task_stats_def dict_get_def)

lemma names_cases:
  "st \<in> set status_names \<longleftrightarrow>
     st = ''pending'' \<or> st = ''processing'' \<or> st = ''completed'' \<or> st = ''failed''"
  by (auto simp: status_names_def)


lemma balanced_iff:
  "balanced s \<longleftrightarrow>
     (\<exists>a b d e. status_counts s =
          [(''pending'', a), (''processing'', b), (''completed'', d), (''failed'', e)] \<and>
        a + b + d + e = int (length (tasks s))) \<and>
     distinct (map fst (tasks s)) \<and>
     (\<forall>(k, u) \<in> set (tasks s). status u \<in> set status_names)"
proof
  assume b: "balanced s"
  then obtain a b' d e where c: "status_counts s = [(''pending'', a), (''processing'', b'), (''completed'', d), (''failed'', e)]"
    using counts_shape[of "status_counts s"] by (auto simp: balanced_def well_formed_def)
  have "a + b' + d + e = int (length (tasks s))"
    using b stats_total_shape[OF c] by (simp add: balanced_def live_tasks_def)
  then show "(\<exists>a b d e. status_counts s =
          [(''pending'', a), (''processing'', b), (''completed'', d), (''failed'', e)] \<and>
        a + b + d + e = int (length (tasks s))) \<and>
     distinct (map fst (tasks s)) \<and>
     (\<forall>(k, u) \<in> set (tasks s). status u \<in> set status_names)"
    using b c by (simp add: balanced_def well_formed_def)
next
  assume r: "(\<exists>a b d e. status_counts s =
          [(''pending'', a), (''processing'', b), (''completed'', d), (''failed'', e)] \<and>
        a + b + d + e = int (length (tasks s))) \<and>
     distinct (map fst (tasks s)) \<and>
     (\<forall>(k, u) \<in> set (tasks s). status u \<in> set status_names)"
  then obtain a b d e where c: "status_counts s = [(''pending'', a), (''processing'', b), (''completed'', d), (''failed'', e)]"
    and tot: "a + b + d + e = int (length (tasks s))" by blast
  have "map fst (status_counts s) = status_names" by (simp add: c status_names_def)
  moreover have "stats_total s = live_tasks s"
    using stats_total_shape[OF c] tot by (simp add: live_tasks_def)
  ultimately show "balanced s" using r by (simp add: balanced_def well_formed_def)
qed

lemma tasks_update_present:
  assumes "distinct (map fst T)" and "\<forall>(k, u) \<in> set T. status u \<in> set status_names"
    and "map_of T k = Some t" and "status t' \<in> set status_names"
  shows "distinct (map fst (AList.update k t' T)) \<and>
         (\<forall>(k, u) \<in> set (AList.update k t' T). status u \<in> set status_names) \<and>
         length (AList.update k t' T) = length T"
proof -
  from update_split[OF assms(3), of t'] obtain xs ys where
    sp: "T = xs @ (k, t) # ys" and up: "AList.update k t' T = xs @ (k, t') # ys" by blast
  have "distinct (map fst (xs @ (k, t') # ys))" using assms(1) by (simp add: sp)
  moreover have "\<forall>(k, u) \<in> set (xs @ (k, t') # ys). status u \<in> set status_names"
    using assms(2,4) by (auto simp: sp)
  moreover have "length (xs @ (k, t') # ys) = length T" by (simp add: sp)
  ultimately show ?thesis by (simp only: up) 
qed

lemma tasks_update_fresh:
  assumes "distinct (map fst T)" and "\<forall>(k, u) \<in> set T. status u \<in> set status_names"
    and "k \<notin> fst ` set T" and "status t' \<in> set status_names"
  shows "distinct (map fst (AList.update k t' T)) \<and>
         (\<forall>(k, u) \<in> set (AList.update k t' T). status u \<in> set status_names) \<and>
         length (AList.update k t' T) = Suc (length T)"
  using assms by (auto simp: update_fresh)

lemma add_task_queue:
  assumes "\<not> lock s" and "well_formed s"
  shows "task_queue (state_of (add_task tid now info s)) =
         task_queue s @ [(- dict_get info ''priority'' 1, tid)]"
proof -
  obtain a b d e where
    c: "status_counts s = [(''pending'', a), (''processing'', b), (''completed'', d), (''failed'', e)]"
    using assms(2) counts_shape[of "status_counts s"] by (auto simp: well_formed_def)
  show ?thesis using assms(1) c
    by (simp add: add_task_def with_lock_def counts_add_def Let_def q_put_def)
qed

text \<open>What each call leaves in the two dictionaries.\<close>

lemma add_task_dicts:
  assumes "\<not> lock s"
    and "status_counts s = [(''pending'', a), (''processing'', b), (''completed'', d), (''failed'', e)]"
  shows "tasks (state_of (add_task tid now info s)) =
           AList.update tid
             \<lparr>task_id = tid, video_info = info, status = ''pending'',
                priority = dict_get info ''priority'' 1, retry_count = 0, progress = 0,
                error = None, created_at = now, updated_at = now\<rparr> (tasks s) \<and>
           status_counts (state_of (add_task tid now info s)) =
             [(''pending'', a + 1), (''processing'', b), (''completed'', d), (''failed'', e)]"
  using assms by (simp add: add_task_def with_lock_def counts_add_def Let_def)

lemma update_task_status_dicts:
  assumes "\<not> lock s"
    and "status_counts s = [(''pending'', a), (''processing'', b), (''completed'', d), (''failed'', e)]"
    and "map_of (tasks s) tid = Some t"
    and "status t \<in> set status_names" and "st \<in> set status_names"
  shows "tasks (state_of (update_task_status tid st now s)) =
           AList.update tid (t\<lparr>status := st, updated_at := now\<rparr>) (tasks s) \<and>
         (\<exists>a' b' d' e'.
           status_counts (state_of (update_task_status tid st now s)) =
             [(''pending'', a'), (''processing'', b'), (''completed'', d'), (''failed'', e')] \<and>
           a' + b' + d' + e' = a + b + d + e)"
proof -
  have old: "status t = ''pending'' \<or> status t = ''processing'' \<or> status t = ''completed'' \<or> status t = ''failed''"
    using assms(4) by (simp add: names_cases)
  have new: "st = ''pending'' \<or> st = ''processing'' \<or> st = ''completed'' \<or> st = ''failed''"
    using assms(5) by (simp add: names_cases)
  show ?thesis
    using old new assms(1,2,3)
    by (elim disjE)
      (simp_all add: update_task_status_def with_lock_def counts_add_def Let_def)
qed

lemma retry_failed_task_dicts:
  assumes "\<not> lock s"
    and "status_counts s = [(''pending'', a), (''processing'', b), (''completed'', d), (''failed'', e)]"
    and "map_of (tasks s) tid = Some t" and "status t = ''failed''"
  shows "tasks (state_of (retry_failed_task tid now s)) =
           AList.update tid
             (t\<lparr>status := ''pending'', retry_count := retry_count t + 1, error := None,
                 updated_at := now\<rparr>) (tasks s) \<and>
           status_counts (state_of (retry_failed_task tid now s)) =
             [(''pending'', a + 1), (''processing'', b), (''completed'', d), (''failed'', e - 1)]"
  using assms by (simp add: retry_failed_task_def with_lock_def counts_add_def Let_def)

lemma update_task_progress_dicts:
  assumes "\<not> lock s" and "map_of (tasks s) tid = Some t"
  shows "tasks (state_of (update_task_progress tid v now s)) =
           AList.update tid (t\<lparr>progress := max 0 (min 100 v), updated_at := now\<rparr>) (tasks s) \<and>
           status_counts (state_of (update_task_progress tid v now s)) = status_counts s"
  using assms by (simp add: update_task_progress_def with_lock_def)

lemma update_task_error_dicts:
  assumes "\<not> lock s"
    and "status_counts s = [(''pending'', a), (''processing'', b), (''completed'', d), (''failed'', e)]"
    and "map_of (tasks s) tid = Some t"
  shows "tasks (state_of (update_task_error tid msg now s)) =
           AList.update tid
             (t\<lparr>error := Some msg, status := ''failed'', updated_at := now\<rparr>) (tasks s) \<and>
           status_counts (state_of (update_task_error tid msg now s)) =
             [(''pending'', a), (''processing'', b - 1), (''completed'', d), (''failed'', e + 1)]"
  using assms by (simp add: update_task_error_def with_lock_def counts_add_def Let_def)


text \<open>The failing paths that write nothing.\<close>

lemma update_task_status_absent:
  "\<not> lock s \<Longrightarrow> map_of (tasks s) tid = None \<Longrightarrow>
   update_task_status tid st now s = Raises TaskNotExist s"
  by (simp add: update_task_status_def with_lock_def)

lemma retry_failed_task_absent:
  "\<not> lock s \<Longrightarrow> map_of (tasks s) tid = None \<Longrightarrow>
   retry_failed_task tid now s = Raises TaskNotExist s"
  by (simp add: retry_failed_task_def with_lock_def)

lemma retry_failed_task_not_failed:
  "\<not> lock s \<Longrightarrow> map_of (tasks s) tid = Some t \<Longrightarrow> status t \<noteq> ''failed'' \<Longrightarrow>
   retry_failed_task tid now s = Raises OnlyFailedRetry s"
  by (simp add: retry_failed_task_def with_lock_def)

lemma update_task_progress_absent:
  "\<not> lock s \<Longrightarrow> map_of (tasks s) tid = None \<Longrightarrow>
   update_task_progress tid v now s = Raises TaskNotExist s"
  by (simp add: update_task_progress_def with_lock_def)

lemma update_task_error_absent:
  "\<not> lock s \<Longrightarrow> map_of (tasks s) tid = None \<Longrightarrow>
   update_task_error tid msg now s = Raises TaskNotExist s"
  by (simp add: update_task_error_def with_lock_def)

lemma cleanup_loop_dicts:
  assumes "status_counts s = [(''pending'', a), (''processing'', b), (''completed'', d), (''failed'', e)]"
  shows "\<exists>s'. cleanup_loop ks s = Returns () s' \<and>
           tasks s' = filter (\<lambda>p. fst p \<notin> set ks) (tasks s) \<and>
           status_counts s' =
             [(''pending'', a), (''processing'', b), (''completed'', d - int (length ks)), (''failed'', e)]"
  using assms
proof (induction ks arbitrary: s d)
  case Nil
  then show ?case by simp
next
  case (Cons k ks)
  let ?s2 = "s\<lparr>tasks := AList.delete k (tasks s),
      status_counts := [(''pending'', a), (''processing'', b), (''completed'', d - 1), (''failed'', e)]\<rparr>"
  have step: "cleanup_loop (k # ks) s = cleanup_loop ks ?s2"
    using Cons.prems by (simp add: counts_add_def Let_def)
  have "status_counts ?s2 = [(''pending'', a), (''processing'', b), (''completed'', d - 1), (''failed'', e)]"
    by simp
  from Cons.IH[OF this] obtain s' where
    r: "cleanup_loop ks ?s2 = Returns () s'"
    and ts: "tasks s' = filter (\<lambda>p. fst p \<notin> set ks) (tasks ?s2)"
    and cs: "status_counts s' =
      [(''pending'', a), (''processing'', b), (''completed'', d - 1 - int (length ks)), (''failed'', e)]"
    by blast
  have "filter (\<lambda>p. fst p \<notin> set ks) (AList.delete k (tasks s)) =
        filter (\<lambda>p. fst p \<notin> set (k # ks)) (tasks s)"
    by (auto simp: AList.delete_eq intro: filter_cong)
  then show ?case using r ts cs by (intro exI[of _ s']) (simp add: step del: cleanup_loop.simps)
qed

lemma filter_out_selected:
  assumes "distinct (map fst T)"
  shows "filter (\<lambda>p. fst p \<notin> set (map fst (filter P T))) T = filter (\<lambda>p. \<not> P p) T"
proof (rule filter_cong[OF refl])
  fix p assume p: "p \<in> set T"
  have "fst p \<in> set (map fst (filter P T)) \<longleftrightarrow> P p"
  proof
    assume "fst p \<in> set (map fst (filter P T))"
    then obtain q where q: "q \<in> set T" "P q" "fst q = fst p" by auto
    then have "q = p" using assms p eq_key_imp_eq_value[of T "fst p" "snd q" "snd p"]
      by (metis prod.collapse)
    then show "P p" using q by simp
  next
    assume "P p"
    then show "fst p \<in> set (map fst (filter P T))" using p by auto
  qed
  then show "(fst p \<notin> set (map fst (filter P T))) = (\<not> P p)" by simp
qed

lemma balanced_cleanup_completed_tasks:
  assumes "balanced s"
  shows "balanced (state_of (cleanup_completed_tasks s))"
proof (cases "lock s")
  case True
  then show ?thesis using assms by (simp add: cleanup_completed_tasks_def with_lock_held)
next
  case False
  let ?P = "\<lambda>(tid, t). status t = ''completed''"
  let ?ks = "map fst (filter ?P (tasks s))"
  let ?s0 = "s\<lparr>lock := True\<rparr>"
  from assms obtain a b d e where
    c: "status_counts s = [(''pending'', a), (''processing'', b), (''completed'', d), (''failed'', e)]"
    and tot: "a + b + d + e = int (length (tasks s))"
    and dist: "distinct (map fst (tasks s))"
    and st: "\<forall>(k, u) \<in> set (tasks s). status u \<in> set status_names"
    unfolding balanced_iff by blast
  have "status_counts ?s0 = [(''pending'', a), (''processing'', b), (''completed'', d), (''failed'', e)]"
    using c by simp
  from cleanup_loop_dicts[OF this, of ?ks] obtain s' where
    r: "cleanup_loop ?ks ?s0 = Returns () s'"
    and ts: "tasks s' = filter (\<lambda>p. fst p \<notin> set ?ks) (tasks s)"
    and cs: "status_counts s' =
      [(''pending'', a), (''processing'', b), (''completed'', d - int (length ?ks)), (''failed'', e)]"
    by auto
  have run: "state_of (cleanup_completed_tasks s) = s'\<lparr>lock := False\<rparr>"
    using False r by (simp add: cleanup_completed_tasks_def with_lock_def Let_def)
  have ts': "tasks s' = filter (\<lambda>p. \<not> ?P p) (tasks s)"
    using ts filter_out_selected[OF dist, of ?P] by simp
  have len: "int (length (tasks s)) = int (length ?ks) + int (length (filter (\<lambda>p. \<not> ?P p) (tasks s)))"
    using sum_length_filter_compl[of ?P "tasks s"] by simp
  show ?thesis
    unfolding balanced_iff run
    using cs ts' tot len dist st by (auto simp: distinct_map_filter)
qed

lemma balanced_after:
  assumes "balanced s" and "known_input c s"
  shows "balanced (after c s)"
proof (cases "lock s")
  case True
  then show ?thesis using assms(1) by (simp add: after_held)
next
  case False
  from assms(1) obtain a b d e where
    c: "status_counts s = [(''pending'', a), (''processing'', b), (''completed'', d), (''failed'', e)]"
    and tot: "a + b + d + e = int (length (tasks s))"
    and dist: "distinct (map fst (tasks s))"
    and st: "\<forall>(k, u) \<in> set (tasks s). status u \<in> set status_names"
    unfolding balanced_iff by blast
  show ?thesis
  proof (cases c)
    case (Add_task tid now info)
    then have fresh: "tid \<notin> fst ` set (tasks s)" using assms(2) by simp
    let ?t = "\<lparr>task_id = tid, video_info = info, status = ''pending'',
                priority = dict_get info ''priority'' 1, retry_count = 0, progress = 0,
                error = None, created_at = now, updated_at = now\<rparr>"
    have "status ?t \<in> set status_names" by (simp add: status_names_def)
    from tasks_update_fresh[OF dist st fresh this] add_task_dicts[OF False c, of tid now info] tot
    show ?thesis unfolding Add_task after.simps balanced_iff by auto
  next
    case (Update_task_status tid new now)
    then have new: "new \<in> set status_names" using assms(2) by simp
    show ?thesis
    proof (cases "map_of (tasks s) tid")
      case None
      then show ?thesis using assms(1) False by (simp add: Update_task_status update_task_status_absent)
    next
      case (Some t)
      have old: "status t \<in> set status_names" using st Some by (auto dest!: map_of_SomeD)
      have "status (t\<lparr>status := new, updated_at := now\<rparr>) \<in> set status_names" using new by simp
      from tasks_update_present[OF dist st Some this]
        update_task_status_dicts[OF False c Some old new, of now] tot
      show ?thesis unfolding Update_task_status after.simps balanced_iff by auto
    qed
  next
    case (Get_next_batch now)
    from get_next_batch_free[OF False, of now] show ?thesis
      using assms(1) unfolding Get_next_batch after.simps by (auto intro: balanced_frame)
  next
    case (Retry_failed_task tid now)
    show ?thesis
    proof (cases "map_of (tasks s) tid")
      case None
      then show ?thesis using assms(1) False by (simp add: Retry_failed_task retry_failed_task_absent)
    next
      case (Some t)
      show ?thesis
      proof (cases "status t = ''failed''")
        case no: False
        then show ?thesis using assms(1) False Some
          by (simp add: Retry_failed_task retry_failed_task_not_failed)
      next
        case True
        let ?t' = "t\<lparr>status := ''pending'', retry_count := retry_count t + 1, error := None,
                 updated_at := now\<rparr>"
        have "status ?t' \<in> set status_names" by (simp add: status_names_def)
        from tasks_update_present[OF dist st Some this]
          retry_failed_task_dicts[OF False c Some True, of now] tot
        show ?thesis unfolding Retry_failed_task after.simps balanced_iff by auto
      qed
    qed
  next
    case (Update_task_progress tid v now)
    show ?thesis
    proof (cases "map_of (tasks s) tid")
      case None
      then show ?thesis using assms(1) False
        by (simp add: Update_task_progress update_task_progress_absent)
    next
      case (Some t)
      have old: "status t \<in> set status_names" using st Some by (auto dest!: map_of_SomeD)
      let ?t' = "t\<lparr>progress := max 0 (min 100 v), updated_at := now\<rparr>"
      have "status ?t' \<in> set status_names" using old by simp
      from tasks_update_present[OF dist st Some this]
        update_task_progress_dicts[OF False Some, of v now] tot c
      show ?thesis unfolding Update_task_progress after.simps balanced_iff by auto
    qed
  next
    case (Update_task_error tid msg now)
    show ?thesis
    proof (cases "map_of (tasks s) tid")
      case None
      then show ?thesis using assms(1) False
        by (simp add: Update_task_error update_task_error_absent)
    next
      case (Some t)
      let ?t' = "t\<lparr>error := Some msg, status := ''failed'', updated_at := now\<rparr>"
      have "status ?t' \<in> set status_names" by (simp add: status_names_def)
      from tasks_update_present[OF dist st Some this]
        update_task_error_dicts[OF False c Some, of msg now] tot
      show ?thesis unfolding Update_task_error after.simps balanced_iff by auto
    qed
  next
    case Cleanup_completed_tasks
    then show ?thesis using balanced_cleanup_completed_tasks[OF assms(1)] by simp
  qed
qed

text \<open>
  With identifiers that are new and statuses that are among the four names, the counters
  add up to the number of records in every state the manager reaches.
\<close>

lemma reachable_balanced: "reachable s \<Longrightarrow> balanced s"
  by (induction rule: reachable.induct) (simp_all add: balanced_init balanced_after)

lemma reachable_total: "reachable s \<Longrightarrow> stats_total s = live_tasks s"
  using reachable_balanced by (simp add: balanced_def)

text \<open>
  Used as the protocol asks, with an error reported only for a processing task, each
  counter is the number of records with its status in every state the manager reaches.
\<close>

lemma count_status_in: "count_status st s = count_in st (tasks s)"
  by (simp add: count_status_def count_in_def)

lemma count_in_update_present:
  assumes "map_of T k = Some t"
  shows "count_in st (AList.update k t' T) =
         count_in st T - (if status t = st then 1 else 0) + (if status t' = st then 1 else 0)"
proof -
  from update_split[OF assms, of t'] obtain xs ys where
    "T = xs @ (k, t) # ys" "AList.update k t' T = xs @ (k, t') # ys" by blast
  then show ?thesis by (simp add: count_in_def)
qed

lemma count_in_update_fresh:
  "k \<notin> fst ` set T \<Longrightarrow>
   count_in st (AList.update k t' T) = count_in st T + (if status t' = st then 1 else 0)"
  by (simp add: update_fresh count_in_def)

lemma count_in_reaped:
  "count_in st (filter (\<lambda>p. \<not> (case p of (tid, t) \<Rightarrow> status t = ''completed'')) T) =
     (if st = ''completed'' then 0 else count_in st T)"
  by (induction T) (auto simp: count_in_def)

lemma counted_iff:
  "counted s \<longleftrightarrow>
     status_counts s =
       [(''pending'', count_in ''pending'' (tasks s)),
        (''processing'', count_in ''processing'' (tasks s)),
        (''completed'', count_in ''completed'' (tasks s)),
        (''failed'', count_in ''failed'' (tasks s))] \<and>
     distinct (map fst (tasks s)) \<and>
     (\<forall>(k, u) \<in> set (tasks s). status u \<in> set status_names)"
  by (auto simp: counted_def well_formed_def status_names_def count_status_in)

lemma counted_frame:
  "counted s \<Longrightarrow> tasks s' = tasks s \<Longrightarrow> status_counts s' = status_counts s \<Longrightarrow> counted s'"
  by (simp add: counted_iff)

lemma counted_init: "counted (init config)"
  by (simp add: counted_iff init_def count_in_def)

lemma update_task_status_counts:
  assumes "\<not> lock s"
    and "status_counts s = [(''pending'', a), (''processing'', b), (''completed'', d), (''failed'', e)]"
    and "map_of (tasks s) tid = Some t"
    and "status t \<in> set status_names" and "st \<in> set status_names"
  shows "status_counts (state_of (update_task_status tid st now s)) =
           map (\<lambda>(k, v). (k, v - (if status t = k then 1 else 0) + (if st = k then 1 else 0)))
             (status_counts s)"
proof -
  have old: "status t = ''pending'' \<or> status t = ''processing'' \<or> status t = ''completed'' \<or> status t = ''failed''"
    using assms(4) by (simp add: names_cases)
  have new: "st = ''pending'' \<or> st = ''processing'' \<or> st = ''completed'' \<or> st = ''failed''"
    using assms(5) by (simp add: names_cases)
  show ?thesis
    using old new assms(1,2,3)
    by (elim disjE)
      (simp_all add: update_task_status_def with_lock_def counts_add_def Let_def)
qed

lemma counted_cleanup_completed_tasks:
  assumes "counted s"
  shows "counted (state_of (cleanup_completed_tasks s))"
proof (cases "lock s")
  case True
  then show ?thesis using assms by (simp add: cleanup_completed_tasks_def with_lock_held)
next
  case False
  let ?P = "\<lambda>(tid, t). status t = ''completed''"
  let ?ks = "map fst (filter ?P (tasks s))"
  let ?s0 = "s\<lparr>lock := True\<rparr>"
  from assms have
    c: "status_counts s =
       [(''pending'', count_in ''pending'' (tasks s)),
        (''processing'', count_in ''processing'' (tasks s)),
        (''completed'', count_in ''completed'' (tasks s)),
        (''failed'', count_in ''failed'' (tasks s))]"
    and dist: "distinct (map fst (tasks s))"
    and st: "\<forall>(k, u) \<in> set (tasks s). status u \<in> set status_names"
    unfolding counted_iff by blast+
  have "status_counts ?s0 =
       [(''pending'', count_in ''pending'' (tasks s)),
        (''processing'', count_in ''processing'' (tasks s)),
        (''completed'', count_in ''completed'' (tasks s)),
        (''failed'', count_in ''failed'' (tasks s))]"
    using c by simp
  from cleanup_loop_dicts[OF this, of ?ks] obtain s' where
    r: "cleanup_loop ?ks ?s0 = Returns () s'"
    and ts: "tasks s' = filter (\<lambda>p. fst p \<notin> set ?ks) (tasks s)"
    and cs: "status_counts s' =
      [(''pending'', count_in ''pending'' (tasks s)),
        (''processing'', count_in ''processing'' (tasks s)),
        (''completed'', count_in ''completed'' (tasks s) - int (length ?ks)),
        (''failed'', count_in ''failed'' (tasks s))]"
    by auto
  have run: "state_of (cleanup_completed_tasks s) = s'\<lparr>lock := False\<rparr>"
    using False r by (simp add: cleanup_completed_tasks_def with_lock_def Let_def)
  have ts': "tasks s' = filter (\<lambda>p. \<not> ?P p) (tasks s)"
    using ts filter_out_selected[OF dist, of ?P] by simp
  have len: "int (length ?ks) = count_in ''completed'' (tasks s)"
    by (simp add: count_in_def)
  show ?thesis
    unfolding counted_iff run
    using cs ts' len dist st by (auto simp: distinct_map_filter count_in_reaped)
qed

lemma counted_after:
  assumes "counted s" and "in_protocol c s"
  shows "counted (after c s)"
proof (cases "lock s")
  case True
  then show ?thesis using assms(1) by (simp add: after_held)
next
  case False
  from assms(1) have
    c: "status_counts s =
       [(''pending'', count_in ''pending'' (tasks s)),
        (''processing'', count_in ''processing'' (tasks s)),
        (''completed'', count_in ''completed'' (tasks s)),
        (''failed'', count_in ''failed'' (tasks s))]"
    and dist: "distinct (map fst (tasks s))"
    and st: "\<forall>(k, u) \<in> set (tasks s). status u \<in> set status_names"
    unfolding counted_iff by blast+
  show ?thesis
  proof (cases c)
    case (Add_task tid now info)
    then have fresh: "tid \<notin> fst ` set (tasks s)" using assms(2) by simp
    let ?t = "\<lparr>task_id = tid, video_info = info, status = ''pending'',
                priority = dict_get info ''priority'' 1, retry_count = 0, progress = 0,
                error = None, created_at = now, updated_at = now\<rparr>"
    have "status ?t \<in> set status_names" by (simp add: status_names_def)
    from tasks_update_fresh[OF dist st fresh this] add_task_dicts[OF False c, of tid now info]
    show ?thesis unfolding Add_task after.simps counted_iff
      by (simp add: count_in_update_fresh[OF fresh])
  next
    case (Update_task_status tid new now)
    then have new: "new \<in> set status_names" using assms(2) by simp
    show ?thesis
    proof (cases "map_of (tasks s) tid")
      case None
      then show ?thesis using assms(1) False by (simp add: Update_task_status update_task_status_absent)
    next
      case (Some t)
      have old: "status t \<in> set status_names" using st Some by (auto dest!: map_of_SomeD)
      have "status (t\<lparr>status := new, updated_at := now\<rparr>) \<in> set status_names" using new by simp
      from tasks_update_present[OF dist st Some this]
        update_task_status_dicts[OF False c Some old new, of now]
        update_task_status_counts[OF False c Some old new, of now]
      show ?thesis unfolding Update_task_status after.simps counted_iff
        by (simp add: count_in_update_present[OF Some] c)
    qed
  next
    case (Get_next_batch now)
    from get_next_batch_free[OF False, of now] show ?thesis
      using assms(1) unfolding Get_next_batch after.simps by (auto intro: counted_frame)
  next
    case (Retry_failed_task tid now)
    show ?thesis
    proof (cases "map_of (tasks s) tid")
      case None
      then show ?thesis using assms(1) False by (simp add: Retry_failed_task retry_failed_task_absent)
    next
      case (Some t)
      show ?thesis
      proof (cases "status t = ''failed''")
        case no: False
        then show ?thesis using assms(1) False Some
          by (simp add: Retry_failed_task retry_failed_task_not_failed)
      next
        case True
        let ?t' = "t\<lparr>status := ''pending'', retry_count := retry_count t + 1, error := None,
                 updated_at := now\<rparr>"
        have "status ?t' \<in> set status_names" by (simp add: status_names_def)
        from tasks_update_present[OF dist st Some this]
          retry_failed_task_dicts[OF False c Some True, of now]
        show ?thesis unfolding Retry_failed_task after.simps counted_iff
          by (simp add: count_in_update_present[OF Some] True)
      qed
    qed
  next
    case (Update_task_progress tid v now)
    show ?thesis
    proof (cases "map_of (tasks s) tid")
      case None
      then show ?thesis using assms(1) False
        by (simp add: Update_task_progress update_task_progress_absent)
    next
      case (Some t)
      have old: "status t \<in> set status_names" using st Some by (auto dest!: map_of_SomeD)
      let ?t' = "t\<lparr>progress := max 0 (min 100 v), updated_at := now\<rparr>"
      have "status ?t' \<in> set status_names" using old by simp
      from tasks_update_present[OF dist st Some this]
        update_task_progress_dicts[OF False Some, of v now] c
      show ?thesis unfolding Update_task_progress after.simps counted_iff
        by (simp add: count_in_update_present[OF Some])
    qed
  next
    case (Update_task_error tid msg now)
    show ?thesis
    proof (cases "map_of (tasks s) tid")
      case None
      then show ?thesis using assms(1) False
        by (simp add: Update_task_error update_task_error_absent)
    next
      case (Some t)
      then have proc: "status t = ''processing''" using assms(2) Update_task_error by simp
      let ?t' = "t\<lparr>error := Some msg, status := ''failed'', updated_at := now\<rparr>"
      have "status ?t' \<in> set status_names" by (simp add: status_names_def)
      from tasks_update_present[OF dist st Some this]
        update_task_error_dicts[OF False c Some, of msg now]
      show ?thesis unfolding Update_task_error after.simps counted_iff
        by (simp add: count_in_update_present[OF Some] proc)
    qed
  next
    case Cleanup_completed_tasks
    then show ?thesis using counted_cleanup_completed_tasks[OF assms(1)] by simp
  qed
qed

lemma reachable_in_protocol_counted: "reachable_in_protocol s \<Longrightarrow> counted s"
  by (induction rule: reachable_in_protocol.induct) (simp_all add: counted_init counted_after)

lemma reachable_in_protocol_counters:
  assumes "reachable_in_protocol s" and "st \<in> set status_names"
  shows "stat st s = Some (count_status st s)"
  using reachable_in_protocol_counted[OF assms(1)] assms(2)
  by (auto simp: counted_def stat_def get_task_stats_def status_names_def)

text \<open>
  A call that raises has written nothing, as long as the status handed to
  \<open>update_task_status\<close> is one of the four names.
\<close>

lemma failing_call_writes_nothing:
  assumes "well_formed s" and "known_input c s" and "failure c s = Some x"
  shows "after c s = s"
proof (cases "lock s")
  case True
  then show ?thesis by (simp add: after_held)
next
  case False
  obtain a b d e where
    c: "status_counts s = [(''pending'', a), (''processing'', b), (''completed'', d), (''failed'', e)]"
    using assms(1) counts_shape[of "status_counts s"] by (auto simp: well_formed_def)
  show ?thesis
  proof (cases c)
    case (Add_task tid now info)
    have "raised (add_task tid now info s) = None"
      using False c by (simp add: add_task_def with_lock_def counts_add_def Let_def)
    then show ?thesis using assms(3) Add_task by simp
  next
    case (Update_task_status tid new now)
    then have new: "new \<in> set status_names" using assms(2) by simp
    show ?thesis
    proof (cases "map_of (tasks s) tid")
      case None
      then show ?thesis using False by (simp add: Update_task_status update_task_status_absent)
    next
      case (Some t)
      have "status t \<in> set status_names" by (rule well_formed_status[OF assms(1) Some])
      then have old: "status t = ''pending'' \<or> status t = ''processing'' \<or> status t = ''completed'' \<or> status t = ''failed''"
        by (simp add: names_cases)
      have new': "new = ''pending'' \<or> new = ''processing'' \<or> new = ''completed'' \<or> new = ''failed''"
        using new by (simp add: names_cases)
      have "raised (update_task_status tid new now s) = None"
        using old new' False c Some
        by (elim disjE) (simp_all add: update_task_status_def with_lock_def counts_add_def Let_def)
      then show ?thesis using assms(3) Update_task_status by simp
    qed
  next
    case (Get_next_batch now)
    have "raised (get_next_batch now s) = None"
      using get_next_batch_free[OF False, of now] by auto
    then show ?thesis using assms(3) Get_next_batch by simp
  next
    case (Retry_failed_task tid now)
    show ?thesis
    proof (cases "map_of (tasks s) tid")
      case None
      then show ?thesis using False by (simp add: Retry_failed_task retry_failed_task_absent)
    next
      case (Some t)
      show ?thesis
      proof (cases "status t = ''failed''")
        case no: False
        then show ?thesis using False Some
          by (simp add: Retry_failed_task retry_failed_task_not_failed)
      next
        case True
        have "raised (retry_failed_task tid now s) = None"
          using False c Some True
          by (simp add: retry_failed_task_def with_lock_def counts_add_def Let_def)
        then show ?thesis using assms(3) Retry_failed_task by simp
      qed
    qed
  next
    case (Update_task_progress tid v now)
    show ?thesis
    proof (cases "map_of (tasks s) tid")
      case None
      then show ?thesis using False
        by (simp add: Update_task_progress update_task_progress_absent)
    next
      case (Some t)
      have "raised (update_task_progress tid v now s) = None"
        using False Some by (simp add: update_task_progress_def with_lock_def)
      then show ?thesis using assms(3) Update_task_progress by simp
    qed
  next
    case (Update_task_error tid msg now)
    show ?thesis
    proof (cases "map_of (tasks s) tid")
      case None
      then show ?thesis using False
        by (simp add: Update_task_error update_task_error_absent)
    next
      case (Some t)
      have "raised (update_task_error tid msg now s) = None"
        using False c Some
        by (simp add: update_task_error_def with_lock_def counts_add_def Let_def)
      then show ?thesis using assms(3) Update_task_error by simp
    qed
  next
    case Cleanup_completed_tasks
    let ?ks = "map fst (filter (\<lambda>(tid, t). status t = ''completed'') (tasks s))"
    have "status_counts (s\<lparr>lock := True\<rparr>) =
        [(''pending'', a), (''processing'', b), (''completed'', d), (''failed'', e)]"
      using c by simp
    from cleanup_loop_dicts[OF this, of ?ks] obtain s' where
      "cleanup_loop ?ks (s\<lparr>lock := True\<rparr>) = Returns () s'" by blast
    then have "raised (cleanup_completed_tasks s) = None"
      using False by (simp add: cleanup_completed_tasks_def with_lock_def Let_def)
    then show ?thesis using assms(3) Cleanup_completed_tasks by simp
  qed
qed

section \<open>The claims\<close>

subsection \<open>C1: status changes are not validated\<close>

text \<open>
  C1, as the code has it. \<open>update_task_status\<close> checks no transition: between two calls,
  for a task that exists and a new status that is one of the four names, the call returns
  \<open>True\<close> from any current status, the record's status is the new one, the counter of
  the old status has lost one and the counter of the new status has gained one, and
  neither the other records nor the queue have changed. The call fails only when the
  identifier is absent, with the exception "task does not exist", and then the state is
  as it was.
\<close>

theorem update_task_status_no_validation:
  assumes "\<not> lock s" and "well_formed s" and "new_status \<in> set status_names"
  shows "(map_of (tasks s) tid = None \<longrightarrow>
            update_task_status tid new_status now s = Raises TaskNotExist s) \<and>
         (\<forall>t. map_of (tasks s) tid = Some t \<longrightarrow>
            (\<exists>s'. update_task_status tid new_status now s = Returns True s' \<and>
                  get_task_status tid s' = Some new_status \<and>
                  (\<forall>k. stat k s' =
                        map_option (\<lambda>v. v - (if k = status t then 1 else 0) +
                                          (if k = new_status then 1 else 0)) (stat k s)) \<and>
                  (\<forall>k. k \<noteq> tid \<longrightarrow> map_of (tasks s') k = map_of (tasks s) k) \<and>
                  task_queue s' = task_queue s \<and> \<not> lock s'))"
proof (intro conjI impI allI)
  assume "map_of (tasks s) tid = None"
  then show "update_task_status tid new_status now s = Raises TaskNotExist s"
    using assms(1) by (simp add: update_task_status_def with_lock_def)
next
  fix t assume t: "map_of (tasks s) tid = Some t"
  have keys: "map fst (status_counts s) = status_names" using assms(2) by (simp add: well_formed_def)
  have "status t \<in> set status_names" by (rule well_formed_status[OF assms(2) t])
  then obtain v1 where v1: "map_of (status_counts s) (status t) = Some v1"
    using counts_key_present[OF keys] by blast
  define c1 where "c1 = AList.update (status t) (v1 - 1) (status_counts s)"
  have k1: "map fst c1 = status_names" using update_present_keys[OF v1] keys by (simp add: c1_def)
  obtain v2 where v2: "map_of c1 new_status = Some v2"
    using counts_key_present[OF k1 assms(3)] by blast
  define s' where "s' = s\<lparr>status_counts := AList.update new_status (v2 + 1) c1,
      tasks := AList.update tid (t\<lparr>status := new_status, updated_at := now\<rparr>) (tasks s)\<rparr>"
  have run: "update_task_status tid new_status now s = Returns True s'"
    using assms(1) t v1 v2
    by (simp add: update_task_status_def with_lock_def counts_add_def c1_def s'_def Let_def)
  have st: "\<And>k. stat k s' =
      map_option (\<lambda>v. v - (if k = status t then 1 else 0) + (if k = new_status then 1 else 0)) (stat k s)"
    using v1 v2
    by (auto simp: stat_def get_task_stats_def s'_def c1_def update_conv' option.map_ident split: if_splits)
  show "\<exists>s'. update_task_status tid new_status now s = Returns True s' \<and>
                  get_task_status tid s' = Some new_status \<and>
                  (\<forall>k. stat k s' =
                        map_option (\<lambda>v. v - (if k = status t then 1 else 0) +
                                          (if k = new_status then 1 else 0)) (stat k s)) \<and>
                  (\<forall>k. k \<noteq> tid \<longrightarrow> map_of (tasks s') k = map_of (tasks s) k) \<and>
                  task_queue s' = task_queue s \<and> \<not> lock s'"
    using run st assms(1)
    by (intro exI[of _ s']) (simp add: get_task_status_def s'_def update_conv')
qed

text \<open>The theorem at the completed task \<open>a\<close>, asked to go back to \<open>processing\<close>.\<close>

theorem update_task_status_no_validation_witness:
  "\<exists>s'. update_task_status ''a'' ''processing'' 9 one_completed = Returns True s' \<and>
        get_task_status ''a'' s' = Some ''processing''"
proof -
  have h1: "\<not> lock one_completed" by code_simp
  have h2: "well_formed one_completed" by code_simp
  have h3: "''processing'' \<in> set status_names" by code_simp
  have "map_of (tasks one_completed) ''a'' \<noteq> None" by code_simp
  then obtain t where t: "map_of (tasks one_completed) ''a'' = Some t" by blast
  from update_task_status_no_validation[OF h1 h2 h3, of "''a''" 9] t
  show ?thesis by blast
qed

text \<open>
  C1 as stated fails: the task \<open>a\<close> is \<open>completed\<close>, the request for \<open>processing\<close>
  returns \<open>True\<close> and the record is \<open>processing\<close> afterwards.
\<close>

theorem completed_to_processing_accepted:
  "get_task_status ''a'' one_completed = Some ''completed'' \<and>
   returned (update_task_status ''a'' ''processing'' 9 one_completed) = Some True \<and>
   raised (update_task_status ''a'' ''processing'' 9 one_completed) = None \<and>
   get_task_status ''a'' (state_of (update_task_status ''a'' ''processing'' 9 one_completed)) =
     Some ''processing''"
  by code_simp

subsection \<open>C2: a failing call that has already written\<close>

text \<open>
  C2 at a failing input. The pending task \<open>a\<close> is asked to take the status \<open>bogus\<close>:
  the call raises \<open>KeyError\<close>, and the counter of \<open>pending\<close>, 1 before the call, is 0
  after it, so the state the failed call leaves is not the state it found. Every other
  raising call leaves the state as it found it (\<open>failing_call_writes_nothing\<close>).
\<close>

theorem unknown_status_partial_update:
  "update_task_status ''a'' ''bogus'' 2 one_pending =
     Raises (KeyError ''bogus'')
       (one_pending\<lparr>status_counts :=
          [(''pending'', 0), (''processing'', 0), (''completed'', 0), (''failed'', 0)]\<rparr>) \<and>
   stat ''pending'' one_pending = Some 1 \<and>
   stat ''pending'' (state_of (update_task_status ''a'' ''bogus'' 2 one_pending)) = Some 0 \<and>
   state_of (update_task_status ''a'' ''bogus'' 2 one_pending) \<noteq> one_pending"
  by code_simp

subsection \<open>C3: reporting an error checks no status\<close>

text \<open>
  C3, as the code has it. Between two calls, \<open>update_task_error\<close> fails only when the
  identifier is absent, with the exception "task does not exist", and the state is then
  as it was. For a task that exists it returns \<open>True\<close> whatever the status: the record is
  \<open>failed\<close> and holds the message. When the task was \<open>processing\<close>, the counter of
  \<open>processing\<close> has lost one, the counter of \<open>failed\<close> has gained one, and the two other
  counters are as before.
\<close>

theorem update_task_error_no_status_check:
  assumes "\<not> lock s" and "well_formed s"
  shows "(map_of (tasks s) tid = None \<longrightarrow>
            update_task_error tid msg now s = Raises TaskNotExist s) \<and>
         (\<forall>t. map_of (tasks s) tid = Some t \<longrightarrow>
            (\<exists>s'. update_task_error tid msg now s = Returns True s' \<and>
                  get_task_status tid s' = Some ''failed'' \<and>
                  get_task_error tid s' = Some msg \<and>
                  (status t = ''processing'' \<longrightarrow>
                     (\<exists>p f. stat ''processing'' s = Some p \<and> stat ''failed'' s = Some f \<and>
                            stat ''processing'' s' = Some (p - 1) \<and>
                            stat ''failed'' s' = Some (f + 1) \<and>
                            stat ''pending'' s' = stat ''pending'' s \<and>
                            stat ''completed'' s' = stat ''completed'' s))))"
proof (intro conjI impI allI)
  assume "map_of (tasks s) tid = None"
  then show "update_task_error tid msg now s = Raises TaskNotExist s"
    using assms(1) by (simp add: update_task_error_def with_lock_def)
next
  fix t assume t: "map_of (tasks s) tid = Some t"
  have keys: "map fst (status_counts s) = status_names" using assms(2) by (simp add: well_formed_def)
  obtain p where p: "map_of (status_counts s) ''processing'' = Some p"
    using counts_key_present[OF keys, of "''processing''"] by (auto simp: status_names_def)
  obtain f where f: "map_of (status_counts s) ''failed'' = Some f"
    using counts_key_present[OF keys, of "''failed''"] by (auto simp: status_names_def)
  define s' where "s' = s\<lparr>tasks := AList.update tid
        (t\<lparr>error := Some msg, status := ''failed'', updated_at := now\<rparr>) (tasks s),
      status_counts := AList.update ''failed'' (f + 1)
        (AList.update ''processing'' (p - 1) (status_counts s))\<rparr>"
  have run: "update_task_error tid msg now s = Returns True s'"
    using assms(1) t p f
    by (simp add: update_task_error_def with_lock_def counts_add_def s'_def Let_def update_conv')
  have st: "stat ''processing'' s = Some p \<and> stat ''failed'' s = Some f \<and>
      stat ''processing'' s' = Some (p - 1) \<and> stat ''failed'' s' = Some (f + 1) \<and>
      stat ''pending'' s' = stat ''pending'' s \<and> stat ''completed'' s' = stat ''completed'' s"
    using p f by (simp add: stat_def get_task_stats_def s'_def update_conv')
  show "\<exists>s'. update_task_error tid msg now s = Returns True s' \<and>
                  get_task_status tid s' = Some ''failed'' \<and>
                  get_task_error tid s' = Some msg \<and>
                  (status t = ''processing'' \<longrightarrow>
                     (\<exists>p f. stat ''processing'' s = Some p \<and> stat ''failed'' s = Some f \<and>
                            stat ''processing'' s' = Some (p - 1) \<and>
                            stat ''failed'' s' = Some (f + 1) \<and>
                            stat ''pending'' s' = stat ''pending'' s \<and>
                            stat ''completed'' s' = stat ''completed'' s))"
    using run st
    by (intro exI[of _ s']) (simp add: get_task_status_def get_task_error_def s'_def update_conv')
qed

text \<open>The theorem at the task \<open>a\<close> in \<open>processing\<close>.\<close>

theorem update_task_error_no_status_check_witness:
  "\<exists>s'. update_task_error ''a'' ''boom'' 3 one_processing = Returns True s' \<and>
        get_task_status ''a'' s' = Some ''failed'' \<and>
        get_task_error ''a'' s' = Some ''boom'' \<and>
        stat ''processing'' s' = Some 0 \<and> stat ''failed'' s' = Some 1"
proof -
  have h1: "\<not> lock one_processing" by code_simp
  have h2: "well_formed one_processing" by code_simp
  have "map_of (tasks one_processing) ''a'' \<noteq> None" by code_simp
  then obtain t where t: "map_of (tasks one_processing) ''a'' = Some t" by blast
  have "get_task_status ''a'' one_processing = Some ''processing''" by code_simp
  then have st: "status t = ''processing''" using t by (simp add: get_task_status_def)
  have p: "stat ''processing'' one_processing = Some 1" by code_simp
  have f: "stat ''failed'' one_processing = Some 0" by code_simp
  from update_task_error_no_status_check[OF h1 h2, of "''a''" "''boom''" 3] t st p f
  show ?thesis by fastforce
qed

text \<open>
  C3 as stated fails: the task \<open>a\<close> is \<open>pending\<close>, the report returns \<open>True\<close>, raises
  nothing, and the record is \<open>failed\<close> afterwards.
\<close>

theorem error_on_pending_accepted:
  "get_task_status ''a'' one_pending = Some ''pending'' \<and>
   returned (update_task_error ''a'' ''boom'' 2 one_pending) = Some True \<and>
   raised (update_task_error ''a'' ''boom'' 2 one_pending) = None \<and>
   get_task_status ''a'' pending_reported = Some ''failed'' \<and>
   get_task_error ''a'' pending_reported = Some ''boom''"
  by code_simp

subsection \<open>C4: counters and records per status\<close>

text \<open>
  C4 at a failing input. An error is reported for the task \<open>a\<close> while it is \<open>pending\<close>:
  the call returns \<open>True\<close>; afterwards the counter of \<open>pending\<close> is 1 with no pending
  record, and the counter of \<open>processing\<close> is -1 with no processing record. When errors
  are reported for processing tasks only, the counters do match the records
  (\<open>reachable_in_protocol_counters\<close>).
\<close>

theorem error_on_pending_breaks_counters:
  "returned (update_task_error ''a'' ''boom'' 2 one_pending) = Some True \<and>
   stat ''pending'' pending_reported = Some 1 \<and> count_status ''pending'' pending_reported = 0 \<and>
   stat ''processing'' pending_reported = Some (- 1) \<and>
   count_status ''processing'' pending_reported = 0 \<and>
   stat ''failed'' pending_reported = Some 1 \<and> count_status ''failed'' pending_reported = 1"
  by code_simp

subsection \<open>C5: the key of the queue\<close>

text \<open>
  C5, as the code has it. The queue orders its entries by the pair (-priority, task
  identifier): draining a queue yields every entry it held, once each, a higher priority
  before a lower one and, among equal priorities, the smaller identifier (as a string)
  first, whatever the order of arrival. The entry \<open>add_task\<close> puts on the queue, between
  two calls, is that pair for the new task.
\<close>

theorem queue_key_is_priority_then_id:
  "sorted_wrt served_before (q_drain q) \<and> mset (q_drain q) = mset q \<and>
   (\<not> lock s \<and> well_formed s \<longrightarrow>
      task_queue (state_of (add_task tid now info s)) =
        task_queue s @ [(- dict_get info ''priority'' 1, tid)])"
  by (simp add: q_drain_def qsize_def drain_sorted drain_mset add_task_queue)

text \<open>The theorem at the two submissions \<open>b\<close>, then \<open>a\<close>, of priority 1.\<close>

theorem queue_key_is_priority_then_id_witness:
  "task_queue (state_of (add_task ''a'' 2 [(''priority'', 1)] (state_of (add_task ''b'' 1 [(''priority'', 1)] (init [])))))
     = [(- 1, ''b''), (- 1, ''a'')] \<and>
   q_drain [(- 1, ''b''), (- 1, ''a'')] = [(- 1, ''a''), (- 1, ''b'')] \<and>
   sorted_wrt served_before [(- 1, ''a''), (- 1, ''b'')]"
proof -
  let ?s1 = "state_of (add_task ''b'' 1 [(''priority'', 1)] (init []))"
  have h1: "\<not> lock ?s1 \<and> well_formed ?s1" by code_simp
  have q1: "task_queue ?s1 = [(- 1, ''b'')]" by code_simp
  have d: "dict_get [(''priority'', 1)] ''priority'' (1::int) = 1" by code_simp
  have dr: "q_drain [(- 1, ''b''), (- 1, ''a'')] = [(- 1, ''a''), (- 1, ''b'')]" by code_simp
  from queue_key_is_priority_then_id[of "[(- 1, ''b''), (- 1, ''a'')]" ?s1 "''a''" 2 "[(''priority'', 1)]"]
    h1 q1 d dr
  show ?thesis by simp
qed

text \<open>
  C5 as stated fails: \<open>b\<close> is submitted before \<open>a\<close> with the same priority; the queue
  serves \<open>a\<close> first, and \<open>get_next_batch\<close> does not return \<open>b\<close>, \<open>a\<close>.
\<close>

theorem equal_priority_served_by_id:
  "map fst (tasks two_equal) = [''b'', ''a''] \<and>
   map (\<lambda>(tid, t). priority t) (tasks two_equal) = [1, 1] \<and>
   task_queue two_equal = [(- 1, ''b''), (- 1, ''a'')] \<and>
   q_drain (task_queue two_equal) = [(- 1, ''a''), (- 1, ''b'')] \<and>
   returned (get_next_batch 3 two_equal) \<noteq> Some [''b'', ''a'']"
  by code_simp

subsection \<open>C6: what one call takes from the queue\<close>

text \<open>
  C6, as the code has it. Between two calls, one call of \<open>get_next_batch\<close> takes at most
  min(queue size, 2 * batch_size) entries from the queue (none when that is negative)
  and raises nothing; every identifier in a batch it returns has a pending record. When
  no entry it takes has a pending record, the call returns, with the empty batch, and
  has changed nothing but the queue. The queue it leaves is the queue it found, less
  the entries taken, plus the entries put back: an entry is put back when its
  identifier is taken for the first time in the call and its record exists and is not
  pending. So an entry taken whose identifier has no record is gone each time it is
  taken; an entry of an existing task that is not pending, whose identifier is taken
  once in the call, is in the queue as often as before; and the queue afterwards holds
  only entries it held before.
\<close>

theorem get_next_batch_scan:
  assumes "\<not> lock s"
  shows "length (get_next_batch_pops now s) \<le> nat (min (int (qsize (task_queue s))) (2 * batch_size s)) \<and>
         raised (get_next_batch now s) = None \<and>
         (\<forall>b. returned (get_next_batch now s) = Some b \<longrightarrow>
              (\<forall>tid \<in> set b. \<exists>t. map_of (tasks s) tid = Some t \<and> status t = ''pending'')) \<and>
         ((\<forall>e \<in> set (get_next_batch_pops now s). \<not> pending_id s (snd e)) \<longrightarrow>
            get_next_batch now s =
              Returns [] (s\<lparr>task_queue := task_queue (state_of (get_next_batch now s))\<rparr>)) \<and>
         mset (task_queue (state_of (get_next_batch now s))) + mset (get_next_batch_pops now s) =
           mset (task_queue s) + mset (put_backs s {} (get_next_batch_pops now s)) \<and>
         (\<forall>e \<in> set (get_next_batch_pops now s). absent s e \<longrightarrow>
              count (mset (task_queue (state_of (get_next_batch now s)))) e +
                count (mset (get_next_batch_pops now s)) e = count (mset (task_queue s)) e) \<and>
         (\<forall>e \<in> set (get_next_batch_pops now s).
              stale_id s (snd e) \<and>
              length (filter (\<lambda>x. snd x = snd e) (get_next_batch_pops now s)) = 1 \<longrightarrow>
              count (mset (task_queue (state_of (get_next_batch now s)))) e =
                count (mset (task_queue s)) e) \<and>
         mset (task_queue (state_of (get_next_batch now s))) \<subseteq># mset (task_queue s)"
proof -
  let ?pops = "get_next_batch_pops now s"
  from get_next_batch_exact[OF assms, of now] obtain q' where
    run: "get_next_batch now s = Returns [] (s\<lparr>task_queue := q'\<rparr>) \<or>
          get_next_batch now s = Blocked (s\<lparr>task_queue := q', lock := True\<rparr>)"
    and eq: "mset q' + mset ?pops = mset (task_queue s) + mset (put_backs s {} ?pops)"
    and ret: "(\<forall>e \<in> set ?pops. \<not> pending_id s (snd e)) \<longrightarrow>
                 get_next_batch now s = Returns [] (s\<lparr>task_queue := q'\<rparr>)"
    by blast
  have q: "task_queue (state_of (get_next_batch now s)) = q'" using run by auto
  have a: "length ?pops \<le> nat (min (int (qsize (task_queue s))) (2 * batch_size s))"
    using assms loop_pops_bound[of now "scan_bound s" "[]" "{}" "s\<lparr>lock := True\<rparr>"]
    by (simp add: get_next_batch_pops_def scan_bound_def mult.commute)
  have b: "raised (get_next_batch now s) = None" using run by auto
  have c: "\<forall>b. returned (get_next_batch now s) = Some b \<longrightarrow>
              (\<forall>tid \<in> set b. \<exists>t. map_of (tasks s) tid = Some t \<and> status t = ''pending'')"
    using run by auto
  have cnt: "\<And>e. count (mset q') e + count (mset ?pops) e =
                 count (mset (task_queue s)) e + count (mset (put_backs s {} ?pops)) e"
    using eq by (metis count_union)
  have d: "\<forall>e \<in> set ?pops. absent s e \<longrightarrow>
             count (mset q') e + count (mset ?pops) e = count (mset (task_queue s)) e"
  proof (intro ballI impI)
    fix e assume "e \<in> set ?pops" and ab: "absent s e"
    have "\<not> stale_id s (snd e)" using ab by (simp add: absent_def stale_id_def)
    then have "e \<notin> set (put_backs s {} ?pops)" using put_backs_stale by blast
    then have "count (mset (put_backs s {} ?pops)) e = 0" by (simp add: count_eq_zero_iff)
    then show "count (mset q') e + count (mset ?pops) e = count (mset (task_queue s)) e"
      using cnt[of e] by simp
  qed
  have f: "\<forall>e \<in> set ?pops.
             stale_id s (snd e) \<and> length (filter (\<lambda>x. snd x = snd e) ?pops) = 1 \<longrightarrow>
             count (mset q') e = count (mset (task_queue s)) e"
  proof (intro ballI impI)
    fix e assume e: "e \<in> set ?pops"
      and h: "stale_id s (snd e) \<and> length (filter (\<lambda>x. snd x = snd e) ?pops) = 1"
    have one: "count (mset (put_backs s {} ?pops)) e = 1"
      using put_backs_once[OF e _ conjunct1[OF h] conjunct2[OF h], of "{}"] by simp
    have "count (mset ?pops) e \<le> 1" using count_le_ids[of ?pops e] h by simp
    moreover have "0 < count (mset ?pops) e" using e by (simp add: count_greater_zero_iff)
    ultimately have "count (mset ?pops) e = 1" by linarith
    then show "count (mset q') e = count (mset (task_queue s)) e"
      using cnt[of e] one by simp
  qed
  have g: "mset q' \<subseteq># mset (task_queue s)"
  proof -
    from put_backs_sub[of s "{}" ?pops] obtain D where
      D: "mset ?pops = mset (put_backs s {} ?pops) + D"
      by (metis subset_mset.le_iff_add)
    have "mset q' + D + mset (put_backs s {} ?pops) = mset (task_queue s) + mset (put_backs s {} ?pops)"
      using eq D by (simp add: ac_simps)
    then have "mset q' + D = mset (task_queue s)" by simp
    then show ?thesis by (metis mset_subset_eq_add_left)
  qed
  have r': "(\<forall>e \<in> set ?pops. \<not> pending_id s (snd e)) \<longrightarrow>
              get_next_batch now s = Returns [] (s\<lparr>task_queue := q'\<rparr>)"
    by (rule ret)
  show ?thesis unfolding q using a b c r' eq d f g by blast
qed

text \<open>
  The theorem at the tasks \<open>a\<close> and \<open>b\<close>, both \<open>processing\<close> and both queued: the call
  takes the entry of \<open>a\<close>, puts it back, takes it again and drops it; the scan bound of
  two is then used up and the call returns the empty batch, leaving the entry of \<open>b\<close>.
\<close>

theorem get_next_batch_scan_witness:
  "get_next_batch_pops 5 two_stale = [(- 2, ''a''), (- 2, ''a'')] \<and>
   put_backs two_stale {} [(- 2, ''a''), (- 2, ''a'')] = [(- 2, ''a'')] \<and>
   task_queue two_stale = [(- 2, ''a''), (- 1, ''b'')] \<and>
   get_next_batch 5 two_stale = Returns [] (two_stale\<lparr>task_queue := [(- 1, ''b'')]\<rparr>) \<and>
   raised (get_next_batch 5 two_stale) = None \<and>
   mset (task_queue (state_of (get_next_batch 5 two_stale))) + mset (get_next_batch_pops 5 two_stale) =
     mset (task_queue two_stale) + mset (put_backs two_stale {} (get_next_batch_pops 5 two_stale))"
proof -
  have h: "\<not> lock two_stale" by code_simp
  have p: "get_next_batch_pops 5 two_stale = [(- 2, ''a''), (- 2, ''a'')]" by code_simp
  have pb: "put_backs two_stale {} [(- 2, ''a''), (- 2, ''a'')] = [(- 2, ''a'')]" by code_simp
  have q: "task_queue two_stale = [(- 2, ''a''), (- 1, ''b'')]" by code_simp
  have r: "get_next_batch 5 two_stale = Returns [] (two_stale\<lparr>task_queue := [(- 1, ''b'')]\<rparr>)"
    by code_simp
  from get_next_batch_scan[OF h, of 5] p pb q r show ?thesis by blast
qed

text \<open>
  C6 as stated fails: the task \<open>a\<close> is \<open>processing\<close> and its entry is in the queue; the
  call takes the entry, puts it back, and returns the empty batch: the queue is as
  before, the stale entry has not been discarded.
\<close>

theorem stale_entry_put_back:
  "get_task_status ''a'' one_processing = Some ''processing'' \<and>
   task_queue one_processing = [(- 1, ''a'')] \<and>
   get_next_batch_pops 5 one_processing = [(- 1, ''a'')] \<and>
   get_next_batch 5 one_processing = Returns [] one_processing \<and>
   task_queue (state_of (get_next_batch 5 one_processing)) = [(- 1, ''a'')]"
  by code_simp

subsection \<open>C7: the sum of the counters\<close>

text \<open>
  C7 at a failing input. After the request of the status \<open>bogus\<close> for the pending task
  \<open>a\<close> has raised \<open>KeyError\<close>, the four counters add up to 0 while the manager holds one
  record. With statuses among the four names the sum is the number of records in every
  state reached (\<open>reachable_total\<close>).
\<close>

theorem unknown_status_breaks_total:
  "raised (update_task_status ''a'' ''bogus'' 2 one_pending) = Some (KeyError ''bogus'') \<and>
   stats_total one_pending = 1 \<and> live_tasks one_pending = 1 \<and>
   stats_total pending_bogus = 0 \<and> live_tasks pending_bogus = 1"
  by code_simp

subsection \<open>C8: report, retry, and the next batch\<close>

text \<open>
  C8 at a failing input. The task \<open>a\<close> is \<open>processing\<close>; an error is reported and the
  task is retried. It is \<open>pending\<close> again, with \<open>retry_count\<close> 1 and no error. The next
  call of \<open>get_next_batch\<close> takes its entry from the queue and then blocks on the lock
  it holds itself: no batch is returned.
\<close>

theorem retried_task_blocks_next_batch:
  "get_task_status ''a'' one_processing = Some ''processing'' \<and>
   returned (update_task_error ''a'' ''boom'' 3 one_processing) = Some True \<and>
   returned (retry_failed_task ''a'' 4 one_failed) = Some True \<and>
   get_task_status ''a'' one_retried = Some ''pending'' \<and>
   get_task_retry_count ''a'' one_retried = 1 \<and>
   get_task_error ''a'' one_retried = None \<and>
   get_next_batch 5 one_retried =
     Blocked (one_retried\<lparr>task_queue := [(- 1, ''a'')], lock := True\<rparr>) \<and>
   returned (get_next_batch 5 one_retried) = None"
  by code_simp

subsection \<open>C9: three priorities\<close>

text \<open>
  C9 at a failing input. Tasks with the priorities 1, 10 and 5 are submitted in that
  order. The queue would serve them as 10, 5, 1; \<open>get_next_batch\<close> takes the entry of
  priority 10, finds its task pending, and blocks on the lock it holds itself: no batch
  is returned.
\<close>

theorem three_priorities_blocks_next_batch:
  "get_next_batch 4 three_priorities =
     Blocked (three_priorities\<lparr>task_queue := [(- 1, ''t1''), (- 5, ''t5'')], lock := True\<rparr>) \<and>
   returned (get_next_batch 4 three_priorities) = None \<and>
   q_drain (task_queue three_priorities) = [(- 10, ''t10''), (- 5, ''t5''), (- 1, ''t1'')]"
  by code_simp

subsection \<open>C10: an identifier queued twice\<close>

text \<open>
  C10 at a failing input. The task \<open>a\<close> is marked \<open>failed\<close> and retried, so it is pending
  and the queue holds two entries for it. \<open>get_next_batch\<close> takes the first entry, finds
  the task pending, and blocks on the lock it holds itself: no batch is returned, with
  or without a repetition, and the second entry is never looked at. (The set of seen
  identifiers does keep the loop's batch free of repetitions, \<open>loop_distinct\<close>; a batch
  that is returned is empty, \<open>get_next_batch_returns_empty\<close>.)
\<close>

theorem duplicate_entry_blocks_next_batch:
  "get_task_status ''a'' duplicate_queued = Some ''pending'' \<and>
   task_queue duplicate_queued = [(- 3, ''a''), (- 3, ''a'')] \<and>
   get_next_batch_pops 4 duplicate_queued = [(- 3, ''a'')] \<and>
   get_next_batch 4 duplicate_queued =
     Blocked (duplicate_queued\<lparr>task_queue := [(- 3, ''a'')], lock := True\<rparr>) \<and>
   returned (get_next_batch 4 duplicate_queued) = None"
  by code_simp

end
